theory Spec2Isabelle
  imports Complex_Main "HOL-Library.Word" "HOL-Library.Monad_Syntax"
begin

unbundle bit_operations_syntax

section \<open>JavaScript values used by the validator\<close>

text \<open>
  A JavaScript string is modelled as a \<^typ>\<open>string\<close>: a list of code units below 256
  (the Latin-1 range). \<open>trim\<close>, \<open>toLowerCase\<close>, \<open>startsWith\<close> and
  \<open>substring\<close> are written out for that range; strings with code units above 255 are
  outside the model.
\<close>

text \<open>
  What a \<open>throw\<close> carries: an instance of \<open>Error\<close> with its message, or any other
  thrown value (\<open>error instanceof Error\<close> is false for it).
\<close>

datatype exception = Error string | NonError

text \<open>White space as \<open>String.prototype.trim\<close> sees it below code unit 256:
  TAB, LF, VT, FF, CR, SPACE and NBSP.\<close>

definition isWhiteSpace :: "char \<Rightarrow> bool" where
  "isWhiteSpace c =
     (let n = (of_char c :: nat) in (9 \<le> n \<and> n \<le> 13) \<or> n = 32 \<or> n = 160)"

definition trim :: "string \<Rightarrow> string" where
  "trim s = rev (dropWhile isWhiteSpace (rev (dropWhile isWhiteSpace s)))"

text \<open>\<open>toLowerCase\<close> on one code unit: A-Z and the Latin-1 capitals (all of
  0xC0-0xDE but the multiplication sign 0xD7) move up by 32.\<close>

definition toLowerChar :: "char \<Rightarrow> char" where
  "toLowerChar c =
     (let n = (of_char c :: nat) in
      if (65 \<le> n \<and> n \<le> 90) \<or> (192 \<le> n \<and> n \<le> 222 \<and> n \<noteq> 215)
      then char_of (n + 32) else c)"

definition toLowerCase :: "string \<Rightarrow> string" where
  "toLowerCase s = map toLowerChar s"

definition startsWith :: "string \<Rightarrow> string \<Rightarrow> bool" where
  "startsWith s p = (take (length p) s = p)"

definition substring :: "string \<Rightarrow> nat \<Rightarrow> string" where
  "substring s i = drop i s"

text \<open>A finite JavaScript number is a rational here (every finite double is one);
  \<open>NaN\<close> and the two infinities are values of their own.\<close>

datatype number = Finite rat | NaN | PosInfinity | NegInfinity

text \<open>What \<open>JSON.parse\<close> returns.\<close>

datatype json =
    JNull
  | JBool bool
  | JNumber number
  | JString string
  | JArray "json list"
  | JObject "(string \<times> json) list"

section \<open>utils/crypto.ts: validateAlgorithm\<close>

text \<open>
  \<^verbatim>\<open>
  export function validateAlgorithm(algorithm: string, allowedAlgorithms: string[]): boolean {
    if (typeof algorithm !== 'string' || !algorithm?.trim()) { return false; }
    if (!Array.isArray(allowedAlgorithms)) { return false; }
    const normalizedAlg = algorithm.toLowerCase();
    const normalizedAllowed = allowedAlgorithms
      .filter(alg => alg?.trim())
      .map(alg => alg.toLowerCase());
    if (normalizedAlg === 'none') { return false; }
    return normalizedAllowed.includes(normalizedAlg);
  }
  \<close>
  The first argument is \<open>header.alg\<close> of a parsed header: \<open>None\<close> stands for
  \<open>undefined\<close>, and any JSON value can arrive. The allowlist is the validator's
  \<open>string[]\<close>.
\<close>

definition validateAlgorithm :: "json option \<Rightarrow> string list \<Rightarrow> bool" where
  "validateAlgorithm algorithm allowedAlgorithms =
     (case algorithm of
        Some (JString alg) \<Rightarrow>
          if trim alg = [] then False
          else
            let normalizedAlg = toLowerCase alg;
                normalizedAllowed =
                  map toLowerCase (filter (\<lambda>a. trim a \<noteq> []) allowedAlgorithms)
            in if normalizedAlg = ''none'' then False
               else normalizedAlg \<in> set normalizedAllowed
      | _ \<Rightarrow> False)"

section \<open>validator.ts: extractBearerToken\<close>

text \<open>The argument \<open>string | string[] | null | undefined\<close>.\<close>

datatype authorizationHeader = Absent | Single string | Multiple "string list"

text \<open>
  \<^verbatim>\<open>
  extractBearerToken(authorizationHeader?: string | string[] | null): string {
    if (!authorizationHeader) { throw new Error('No authorization header provided'); }
    let headerValue: string;
    if (Array.isArray(authorizationHeader)) {
      if (authorizationHeader.length === 0) { throw new Error('No authorization header provided'); }
      if (authorizationHeader.length > 1) { throw new Error('Multiple authorization headers not allowed'); }
      headerValue = authorizationHeader[0];
    } else { headerValue = authorizationHeader; }
    if (!headerValue?.trim()) { throw new Error('No authorization header provided'); }
    if (!headerValue.startsWith('Bearer ')) {
      throw new Error('Authorization header must provide "Bearer" token');
    }
    const token = headerValue.substring(7);
    if (!token) { throw new Error('No token provided'); }
    return token;
  }
  \<close>
  An array is truthy even when empty; the empty string is falsy.
\<close>

definition bearerOfValue :: "string \<Rightarrow> exception + string" where
  "bearerOfValue headerValue =
     (if trim headerValue = [] then Inl (Error ''No authorization header provided'')
      else if \<not> startsWith headerValue ''Bearer ''
      then Inl (Error (''Authorization header must provide '' @ [CHR 0x22] @ ''Bearer''
                         @ [CHR 0x22] @ '' token''))
      else let token = substring headerValue 7
           in if token = [] then Inl (Error ''No token provided'') else Inr token)"

fun extractBearerToken :: "authorizationHeader \<Rightarrow> exception + string" where
  "extractBearerToken Absent = Inl (Error ''No authorization header provided'')"
| "extractBearerToken (Single h) =
     (if h = [] then Inl (Error ''No authorization header provided'') else bearerOfValue h)"
| "extractBearerToken (Multiple []) = Inl (Error ''No authorization header provided'')"
| "extractBearerToken (Multiple [h]) = bearerOfValue h"
| "extractBearerToken (Multiple (h # h' # hs)) =
     Inl (Error ''Multiple authorization headers not allowed'')"

section \<open>utils/cache.ts: the LRU cache (doubly-linked list and hash map)\<close>

text \<open>
  \<open>cache.ts\<close> holds two versions of the class \<open>LRUCache\<close>. The first (lines 25-346:
  hash map plus doubly-linked list, expiry from \<open>lastAccessed\<close>, no overwrite on a
  repeated \<open>set\<close>, validated constructor) is the one the specification describes; it is
  modelled first. The second (lines 387-695: a map only, expiry from \<open>created\<close>,
  overwrite on a repeated \<open>set\<close>, no validation) is modelled in the last subsection,
  its names carrying the suffix \<open>_v2\<close>.
\<close>

subsection \<open>Numbers as the constructor tests them\<close>

text \<open>\<open>!x\<close> is true for \<open>0\<close> and \<open>NaN\<close>; \<open>Number.isInteger\<close> holds for the finite
  integers; \<open>x <= 0\<close> and \<open>a < b\<close> are false as soon as a \<open>NaN\<close> takes part.\<close>

fun truthy :: "number \<Rightarrow> bool" where
  "truthy (Finite q) = (q \<noteq> 0)"
| "truthy NaN = False"
| "truthy PosInfinity = True"
| "truthy NegInfinity = True"

fun isInteger :: "number \<Rightarrow> bool" where
  "isInteger (Finite q) = (of_int \<lfloor>q\<rfloor> = q)"
| "isInteger NaN = False"
| "isInteger PosInfinity = False"
| "isInteger NegInfinity = False"

fun lessEqZero :: "number \<Rightarrow> bool" where
  "lessEqZero (Finite q) = (q \<le> 0)"
| "lessEqZero NaN = False"
| "lessEqZero PosInfinity = False"
| "lessEqZero NegInfinity = True"

fun lessNumber :: "number \<Rightarrow> number \<Rightarrow> bool" where
  "lessNumber (Finite a) (Finite b) = (a < b)"
| "lessNumber NaN b = False"
| "lessNumber a NaN = False"
| "lessNumber PosInfinity b = False"
| "lessNumber NegInfinity b = (b \<noteq> NegInfinity)"
| "lessNumber (Finite a) PosInfinity = True"
| "lessNumber (Finite a) NegInfinity = False"

subsection \<open>The JavaScript \<open>Map\<close>\<close>

text \<open>A \<open>Map<string, V>\<close> keeps its entries in insertion order; \<open>set\<close> on a key it holds
  replaces the entry where it stands, \<open>set\<close> on a new key appends.\<close>

type_synonym 'v Map = "(string \<times> 'v) list"

definition Map_get :: "'v Map \<Rightarrow> string \<Rightarrow> 'v option" where
  "Map_get m k = map_of m k"

fun Map_set :: "'v Map \<Rightarrow> string \<Rightarrow> 'v \<Rightarrow> 'v Map" where
  "Map_set [] k v = [(k, v)]"
| "Map_set (p # ps) k v = (if fst p = k then (k, v) # ps else p # Map_set ps k v)"

definition Map_delete :: "'v Map \<Rightarrow> string \<Rightarrow> 'v Map" where
  "Map_delete m k = filter (\<lambda>p. fst p \<noteq> k) m"

definition Map_size :: "'v Map \<Rightarrow> nat" where
  "Map_size m = length m"

subsection \<open>State\<close>

text \<open>
  \<open>LRUNode\<close> is imported from \<open>../types\<close>, whose declaration is not in the sources; its
  fields are read off the node literals of the class:
  \<open>{ key, value, lastAccessed, prev, next }\<close>. The field \<open>value\<close> is called \<open>val\<close> here.
  The links \<open>prev\<close>/\<open>next\<close> are not fields of the model: the chain
  \<open>head.next, head.next.next, ...\<close> up to the \<open>tail\<close> sentinel is the list \<open>order\<close>, in
  which a node is named by its key (the map holds one node per key), most recently
  used first.
\<close>

record LRUNode =
  key :: string
  val :: string
  lastAccessed :: int

record CacheOptions =
  optMaxSize :: number
  optTtl :: "number option"

record LRUCache =
  cache :: "LRUNode Map"
  order :: "string list"
  maxSize :: nat
  ttl :: "number option"

text \<open>
  \<^verbatim>\<open>
  constructor(options: CacheOptions) {
    if (!options.maxSize || !Number.isInteger(options.maxSize) || options.maxSize <= 0) {
      throw new Error('maxSize must be a positive integer');
    }
    if (options.ttl && (!Number.isInteger(options.ttl) || options.ttl <= 0)) {
      throw new Error('ttl must be a positive integer (if specified)');
    }
    this.maxSize = options.maxSize;
    this.ttl = options.ttl ?? undefined;
    ... head.next = tail; tail.prev = head
  }
  \<close>
  Past the first check \<open>maxSize\<close> is a positive integer, kept as a \<^typ>\<open>nat\<close>.
\<close>

definition LRUCache_new :: "CacheOptions \<Rightarrow> exception + LRUCache" where
  "LRUCache_new options =
     (if \<not> truthy (optMaxSize options) \<or> \<not> isInteger (optMaxSize options)
         \<or> lessEqZero (optMaxSize options)
      then Inl (Error ''maxSize must be a positive integer'')
      else if (case optTtl options of
                 None \<Rightarrow> False
               | Some t \<Rightarrow> truthy t \<and> (\<not> isInteger t \<or> lessEqZero t))
      then Inl (Error ''ttl must be a positive integer (if specified)'')
      else Inr \<lparr> cache = [], order = [],
                 maxSize = (case optMaxSize options of Finite q \<Rightarrow> nat \<lfloor>q\<rfloor> | _ \<Rightarrow> 0),
                 ttl = optTtl options \<rparr>)"

text \<open>\<open>this.ttl && Date.now() - node.lastAccessed > this.ttl\<close>, with the clock reading
  \<open>now\<close>.\<close>

definition ttlExpired :: "number option \<Rightarrow> int \<Rightarrow> int \<Rightarrow> bool" where
  "ttlExpired t now accessed =
     (case t of
        None \<Rightarrow> False
      | Some d \<Rightarrow> truthy d \<and> lessNumber d (Finite (of_int (now - accessed))))"

subsection \<open>The private list operations\<close>

text \<open>
  \<^verbatim>\<open>
  private removeNode(node)  { node.prev.next = node.next; node.next.prev = node.prev; }
  private addToFront(node)  { node.prev = head; node.next = head.next;
                              head.next.prev = node; head.next = node; }
  private moveToFront(node) { this.removeNode(node); this.addToFront(node); }
  private evictLeastRecentlyUsed() {
    const lru = this.tail.prev;
    if (lru && lru !== this.head) { this.removeNode(lru); this.cache.delete(lru.key); }
  }
  \<close>
\<close>

definition removeNode :: "LRUCache \<Rightarrow> string \<Rightarrow> LRUCache" where
  "removeNode c node = c\<lparr>order := remove1 node (order c)\<rparr>"

definition addToFront :: "LRUCache \<Rightarrow> string \<Rightarrow> LRUCache" where
  "addToFront c node = c\<lparr>order := node # order c\<rparr>"

definition moveToFront :: "LRUCache \<Rightarrow> string \<Rightarrow> LRUCache" where
  "moveToFront c node = addToFront (removeNode c node) node"

definition evictLeastRecentlyUsed :: "LRUCache \<Rightarrow> LRUCache" where
  "evictLeastRecentlyUsed c =
     (if order c = [] then c
      else let lru = last (order c); c' = removeNode c lru
           in c'\<lparr>cache := Map_delete (cache c') lru\<rparr>)"

subsection \<open>The public operations\<close>

text \<open>
  Every operation that reads the clock takes the reading \<open>now\<close> of \<open>Date.now()\<close>.
  \<^verbatim>\<open>
  get(key) {
    const node = this.cache.get(key);
    if (!node) { return undefined; }
    if (this.ttl && Date.now() - node.lastAccessed > this.ttl) {
      this.removeNode(node); this.cache.delete(key); return undefined;
    }
    node.lastAccessed = Date.now();
    this.moveToFront(node);
    return node.value;
  }
  \<close>
\<close>

definition LRUCache_get :: "LRUCache \<Rightarrow> string \<Rightarrow> int \<Rightarrow> LRUCache \<times> string option" where
  "LRUCache_get c k now =
     (case Map_get (cache c) k of
        None \<Rightarrow> (c, None)
      | Some node \<Rightarrow>
          if ttlExpired (ttl c) now (lastAccessed node)
          then (let c' = removeNode c (key node) in c'\<lparr>cache := Map_delete (cache c') k\<rparr>, None)
          else (moveToFront (c\<lparr>cache := Map_set (cache c) k (node\<lparr>lastAccessed := now\<rparr>)\<rparr>)
                  (key node),
                Some (val node)))"

text \<open>
  \<^verbatim>\<open>
  set(key, value) {
    const now = Date.now();
    const existingNode = this.cache.get(key);
    if (existingNode) {
      existingNode.lastAccessed = now; this.moveToFront(existingNode); return;
    }
    const newNode = { key, value, lastAccessed: now, prev: null, next: null };
    this.cache.set(key, newNode);
    this.addToFront(newNode);
    if (this.cache.size > this.maxSize) { this.evictLeastRecentlyUsed(); }
  }
  \<close>
\<close>

definition LRUCache_set :: "LRUCache \<Rightarrow> string \<Rightarrow> string \<Rightarrow> int \<Rightarrow> LRUCache" where
  "LRUCache_set c k v now =
     (case Map_get (cache c) k of
        Some existingNode \<Rightarrow>
          moveToFront (c\<lparr>cache := Map_set (cache c) k (existingNode\<lparr>lastAccessed := now\<rparr>)\<rparr>)
            (key existingNode)
      | None \<Rightarrow>
          let newNode = \<lparr> key = k, val = v, lastAccessed = now \<rparr>;
              c1 = c\<lparr>cache := Map_set (cache c) k newNode\<rparr>;
              c2 = addToFront c1 (key newNode)
          in if Map_size (cache c2) > maxSize c2 then evictLeastRecentlyUsed c2 else c2)"

text \<open>
  \<^verbatim>\<open>
  has(key) {
    const node = this.cache.get(key);
    if (!node) { return false; }
    if (this.ttl && Date.now() - node.lastAccessed > this.ttl) {
      this.removeNode(node); this.cache.delete(key); return false;
    }
    return true;
  }
  delete(key) {
    const node = this.cache.get(key);
    if (!node) { return false; }
    this.removeNode(node); this.cache.delete(key); return true;
  }
  clear() { this.cache.clear(); this.head.next = this.tail; this.tail.prev = this.head; }
  size()  { return this.cache.size; }
  \<close>
\<close>

definition LRUCache_has :: "LRUCache \<Rightarrow> string \<Rightarrow> int \<Rightarrow> LRUCache \<times> bool" where
  "LRUCache_has c k now =
     (case Map_get (cache c) k of
        None \<Rightarrow> (c, False)
      | Some node \<Rightarrow>
          if ttlExpired (ttl c) now (lastAccessed node)
          then (let c' = removeNode c (key node) in c'\<lparr>cache := Map_delete (cache c') k\<rparr>, False)
          else (c, True))"

definition LRUCache_delete :: "LRUCache \<Rightarrow> string \<Rightarrow> LRUCache \<times> bool" where
  "LRUCache_delete c k =
     (case Map_get (cache c) k of
        None \<Rightarrow> (c, False)
      | Some node \<Rightarrow>
          (let c' = removeNode c (key node) in c'\<lparr>cache := Map_delete (cache c') k\<rparr>, True))"

definition LRUCache_clear :: "LRUCache \<Rightarrow> LRUCache" where
  "LRUCache_clear c = c\<lparr>cache := [], order := []\<rparr>"

definition LRUCache_size :: "LRUCache \<Rightarrow> nat" where
  "LRUCache_size c = Map_size (cache c)"

subsection \<open>Sequences of calls\<close>

datatype cacheCall =
    CallSet string string int
  | CallGet string int
  | CallHas string int
  | CallDelete string
  | CallClear

fun call :: "LRUCache \<Rightarrow> cacheCall \<Rightarrow> LRUCache" where
  "call c (CallSet k v now) = LRUCache_set c k v now"
| "call c (CallGet k now) = fst (LRUCache_get c k now)"
| "call c (CallHas k now) = fst (LRUCache_has c k now)"
| "call c (CallDelete k) = fst (LRUCache_delete c k)"
| "call c CallClear = LRUCache_clear c"

definition calls :: "LRUCache \<Rightarrow> cacheCall list \<Rightarrow> LRUCache" where
  "calls c cs = foldl call c cs"

text \<open>The state a constructor call leaves and the calls preserve: the map has one entry
  per key, stored under the node's own key; the list holds exactly the map's keys, once
  each; the capacity is positive and respected.\<close>

definition wellFormed :: "LRUCache \<Rightarrow> bool" where
  "wellFormed c \<longleftrightarrow>
     distinct (map fst (cache c)) \<and> distinct (order c)
     \<and> set (order c) = fst ` set (cache c)
     \<and> list_all (\<lambda>p. key (snd p) = fst p) (cache c)
     \<and> 0 < maxSize c \<and> length (cache c) \<le> maxSize c"

text \<open>A sequence of \<open>set\<close> calls, each with its key, value and clock reading.\<close>

definition setCalls :: "(string \<times> string \<times> int) list \<Rightarrow> cacheCall list" where
  "setCalls kvs = map (\<lambda>(k, v, now). CallSet k v now) kvs"

text \<open>The specification's "positive integer", for the constructor's contract.\<close>

definition positiveInteger :: "number \<Rightarrow> bool" where
  "positiveInteger x = (case x of Finite q \<Rightarrow> of_int \<lfloor>q\<rfloor> = q \<and> 0 < q | _ \<Rightarrow> False)"

text \<open>
  For the expiry properties: a call leaves \<open>k\<close> untouched when it is neither a \<open>set\<close> nor a
  \<open>get\<close> of \<open>k\<close>; \<open>getsAt\<close> is a run of \<open>get\<close> calls on one key at the given clock
  readings, with their results; \<open>withinTtl d accessed ts\<close> says that the readings \<open>ts\<close>
  follow the access at \<open>accessed\<close> with gaps of at most \<open>d\<close>.
\<close>

fun untouched :: "string \<Rightarrow> cacheCall \<Rightarrow> bool" where
  "untouched k (CallSet k' v now) = (k' \<noteq> k)"
| "untouched k (CallGet k' now) = (k' \<noteq> k)"
| "untouched k (CallHas k' now) = True"
| "untouched k (CallDelete k') = True"
| "untouched k CallClear = True"

fun getsAt :: "LRUCache \<Rightarrow> string \<Rightarrow> int list \<Rightarrow> string option list" where
  "getsAt c k [] = []"
| "getsAt c k (now # ts) = snd (LRUCache_get c k now) # getsAt (fst (LRUCache_get c k now)) k ts"

fun withinTtl :: "int \<Rightarrow> int \<Rightarrow> int list \<Rightarrow> bool" where
  "withinTtl d accessed [] = True"
| "withinTtl d accessed (now # ts) = (now - accessed \<le> d \<and> withinTtl d now ts)"

text \<open>
  For the recency properties: the clock readings of a run of calls, in the order of the
  calls (\<open>delete\<close> and \<open>clear\<close> do not read the clock), and the time at which the entry
  of a key was last used, as the cache records it.
\<close>

fun readings :: "cacheCall list \<Rightarrow> int list" where
  "readings [] = []"
| "readings (CallSet k v now # xs) = now # readings xs"
| "readings (CallGet k now # xs) = now # readings xs"
| "readings (CallHas k now # xs) = now # readings xs"
| "readings (CallDelete k # xs) = readings xs"
| "readings (CallClear # xs) = readings xs"

definition accessedAt :: "LRUCache \<Rightarrow> string \<Rightarrow> int" where
  "accessedAt c k = (case Map_get (cache c) k of Some node \<Rightarrow> lastAccessed node | None \<Rightarrow> 0)"

text \<open>The recency list runs from the entry used last to the entry used first, and no
  entry was used after the reading \<open>T\<close>.\<close>

definition recent :: "LRUCache \<Rightarrow> int \<Rightarrow> bool" where
  "recent c T \<longleftrightarrow>
     sorted_wrt (\<lambda>a b. accessedAt c b \<le> accessedAt c a) (order c)
     \<and> (\<forall>k \<in> set (order c). accessedAt c k \<le> T)"

subsection \<open>The second class (cache.ts, lines 387-695)\<close>

text \<open>
  \<open>CacheEntry\<close> (types/index.ts) has the fields \<open>value\<close>, \<open>lastAccessed\<close> and \<open>created\<close>.
  The constructor stores \<open>options.maxSize\<close> and \<open>options.ttl\<close> as they come:
  \<^verbatim>\<open>
  constructor(options: CacheOptions) { this.maxSize = options.maxSize; this.ttl = options.ttl; }
  \<close>
\<close>

record CacheEntry =
  value_v2 :: string
  lastAccessed_v2 :: int
  created :: int

record LRUCache_v2 =
  cache_v2 :: "CacheEntry Map"
  maxSize_v2 :: number
  ttl_v2 :: "number option"

definition LRUCache_new_v2 :: "CacheOptions \<Rightarrow> LRUCache_v2" where
  "LRUCache_new_v2 options =
     \<lparr> cache_v2 = [], maxSize_v2 = optMaxSize options, ttl_v2 = optTtl options \<rparr>"

text \<open>
  \<^verbatim>\<open>
  private evictLeastRecentlyUsed(): void {
    let oldestKey = '';
    let oldestTime = Infinity;
    for (const [key, entry] of this.cache) {
      if (entry.lastAccessed < oldestTime) { oldestTime = entry.lastAccessed; oldestKey = key; }
    }
    if (oldestKey) { this.cache.delete(oldestKey); }
  }
  \<close>
  The loop is \<open>oldestEntry\<close>, over the entries in the map's order.
\<close>

fun oldestEntry :: "CacheEntry Map \<Rightarrow> string \<Rightarrow> number \<Rightarrow> string" where
  "oldestEntry [] oldestKey oldestTime = oldestKey"
| "oldestEntry (p # rest) oldestKey oldestTime =
     (if lessNumber (Finite (of_int (lastAccessed_v2 (snd p)))) oldestTime
      then oldestEntry rest (fst p) (Finite (of_int (lastAccessed_v2 (snd p))))
      else oldestEntry rest oldestKey oldestTime)"

definition evictLeastRecentlyUsed_v2 :: "LRUCache_v2 \<Rightarrow> LRUCache_v2" where
  "evictLeastRecentlyUsed_v2 c =
     (let oldestKey = oldestEntry (cache_v2 c) [] PosInfinity
      in if oldestKey \<noteq> [] then c\<lparr>cache_v2 := Map_delete (cache_v2 c) oldestKey\<rparr> else c)"

text \<open>
  \<^verbatim>\<open>
  get(key) {
    const entry = this.cache.get(key);
    if (!entry) { return undefined; }
    if (this.ttl && Date.now() - entry.created > this.ttl) {
      this.cache.delete(key); return undefined;
    }
    entry.lastAccessed = Date.now();
    return entry.value;
  }
  set(key, value) {
    const now = Date.now();
    if (this.cache.has(key)) {
      const entry = this.cache.get(key)!;
      entry.value = value; entry.lastAccessed = now; entry.created = now;
      return;
    }
    this.cache.set(key, { value, lastAccessed: now, created: now });
    if (this.cache.size > this.maxSize) { this.evictLeastRecentlyUsed(); }
  }
  has(key) {
    const entry = this.cache.get(key);
    if (!entry) { return false; }
    if (this.ttl && Date.now() - entry.created > this.ttl) {
      this.cache.delete(key); return false;
    }
    return true;
  }
  delete(key) { return this.cache.delete(key); }
  clear()     { this.cache.clear(); }
  size()      { return this.cache.size; }
  \<close>
\<close>

definition LRUCache_get_v2 ::
  "LRUCache_v2 \<Rightarrow> string \<Rightarrow> int \<Rightarrow> LRUCache_v2 \<times> string option" where
  "LRUCache_get_v2 c k now =
     (case Map_get (cache_v2 c) k of
        None \<Rightarrow> (c, None)
      | Some entry \<Rightarrow>
          if ttlExpired (ttl_v2 c) now (created entry)
          then (c\<lparr>cache_v2 := Map_delete (cache_v2 c) k\<rparr>, None)
          else (c\<lparr>cache_v2 := Map_set (cache_v2 c) k (entry\<lparr>lastAccessed_v2 := now\<rparr>)\<rparr>,
                Some (value_v2 entry)))"

definition LRUCache_set_v2 :: "LRUCache_v2 \<Rightarrow> string \<Rightarrow> string \<Rightarrow> int \<Rightarrow> LRUCache_v2" where
  "LRUCache_set_v2 c k v now =
     (case Map_get (cache_v2 c) k of
        Some entry \<Rightarrow>
          c\<lparr>cache_v2 := Map_set (cache_v2 c) k
                           (entry\<lparr>value_v2 := v, lastAccessed_v2 := now, created := now\<rparr>)\<rparr>
      | None \<Rightarrow>
          let c1 = c\<lparr>cache_v2 := Map_set (cache_v2 c) k
                                   \<lparr> value_v2 = v, lastAccessed_v2 = now, created = now \<rparr>\<rparr>
          in if lessNumber (maxSize_v2 c1) (Finite (of_nat (Map_size (cache_v2 c1))))
             then evictLeastRecentlyUsed_v2 c1 else c1)"

definition LRUCache_has_v2 :: "LRUCache_v2 \<Rightarrow> string \<Rightarrow> int \<Rightarrow> LRUCache_v2 \<times> bool" where
  "LRUCache_has_v2 c k now =
     (case Map_get (cache_v2 c) k of
        None \<Rightarrow> (c, False)
      | Some entry \<Rightarrow>
          if ttlExpired (ttl_v2 c) now (created entry)
          then (c\<lparr>cache_v2 := Map_delete (cache_v2 c) k\<rparr>, False)
          else (c, True))"

definition LRUCache_delete_v2 :: "LRUCache_v2 \<Rightarrow> string \<Rightarrow> LRUCache_v2 \<times> bool" where
  "LRUCache_delete_v2 c k =
     (c\<lparr>cache_v2 := Map_delete (cache_v2 c) k\<rparr>, Map_get (cache_v2 c) k \<noteq> None)"

definition LRUCache_clear_v2 :: "LRUCache_v2 \<Rightarrow> LRUCache_v2" where
  "LRUCache_clear_v2 c = c\<lparr>cache_v2 := []\<rparr>"

definition LRUCache_size_v2 :: "LRUCache_v2 \<Rightarrow> nat" where
  "LRUCache_size_v2 c = Map_size (cache_v2 c)"

text \<open>A run of \<open>get\<close> calls on one key at the given clock readings, with their results.\<close>

fun getsAt_v2 :: "LRUCache_v2 \<Rightarrow> string \<Rightarrow> int list \<Rightarrow> string option list" where
  "getsAt_v2 c k [] = []"
| "getsAt_v2 c k (now # ts) =
     snd (LRUCache_get_v2 c k now) # getsAt_v2 (fst (LRUCache_get_v2 c k now)) k ts"

section \<open>jwks-client.ts: DER encoding of the RSA public key\<close>

text \<open>
  JavaScript's bit operators work on the 32-bit two's complement reading of a number:
  \<open>temp & 0xff\<close> and \<open>temp >> 8\<close> first apply \<open>ToInt32\<close>.
\<close>

definition toInt32 :: "int \<Rightarrow> int" where
  "toInt32 x = (x + 2 ^ 31) mod 2 ^ 32 - 2 ^ 31"

text \<open>
  \<^verbatim>\<open>
  private encodeLength(length: number): Uint8Array {
    if (length < 0x80) { return new Uint8Array([length]); }
    const bytes = [];
    let temp = length;
    while (temp > 0) { bytes.unshift(temp & 0xff); temp >>= 8; }
    return new Uint8Array([0x80 | bytes.length, ...bytes]);
  }
  \<close>
  The loop is \<open>lengthBytes\<close>; the argument is the length of an array, a natural number.
\<close>

function lengthBytes :: "int \<Rightarrow> int list \<Rightarrow> int list" where
  "lengthBytes temp bytes =
     (if temp > 0 then lengthBytes (drop_bit 8 (toInt32 temp)) ((toInt32 temp AND 0xff) # bytes)
      else bytes)"
  by pat_completeness auto
termination
proof (relation "measure (\<lambda>(temp, bytes). nat temp)")
  show "wf (measure (\<lambda>(temp, bytes). nat temp))" by simp
next
  fix temp :: int and bytes :: "int list"
  assume a: "0 < temp"
  have "(temp + 2 ^ 31) mod 2 ^ 32 \<le> temp + 2 ^ 31"
    using a by (intro zmod_le_nonneg_dividend) simp
  then have "toInt32 temp \<le> temp" by (simp add: toInt32_def)
  moreover have "drop_bit 8 (toInt32 temp) = toInt32 temp div 256" by (simp add: drop_bit_eq_div)
  ultimately have "drop_bit 8 (toInt32 temp) < temp" using a by (simp add: div_less_iff_less_mult)
  then show "((drop_bit 8 (toInt32 temp), (toInt32 temp AND 0xff) # bytes), (temp, bytes))
      \<in> measure (\<lambda>(temp, bytes). nat temp)" using a by simp
qed

declare lengthBytes.simps [simp del]

definition encodeLength :: "nat \<Rightarrow> 8 word list" where
  "encodeLength len =
     (if len < 0x80 then [of_nat len]
      else let bytes = lengthBytes (int len) []
           in map of_int ((0x80 OR int (length bytes)) # bytes))"

text \<open>
  \<^verbatim>\<open>
  private encodeInteger(bytes: Uint8Array): Uint8Array {
    const needsPadding = bytes[0] >= 0x80;
    const paddedBytes = needsPadding ? new Uint8Array([0, ...bytes]) : bytes;
    const length = this.encodeLength(paddedBytes.length);
    return new Uint8Array([0x02, ...length, ...paddedBytes]);
  }
  \<close>
  On an empty array \<open>bytes[0]\<close> is \<open>undefined\<close> and the comparison is false.
\<close>

definition encodeInteger :: "8 word list \<Rightarrow> 8 word list" where
  "encodeInteger bytes =
     (let needsPadding = (case bytes of [] \<Rightarrow> False | b # _ \<Rightarrow> b \<ge> 0x80);
          paddedBytes = (if needsPadding then 0 # bytes else bytes);
          len = encodeLength (length paddedBytes)
      in 0x02 # len @ paddedBytes)"

definition rsaOID :: "8 word list" where
  "rsaOID = [0x30, 0x0d,
             0x06, 0x09, 0x2a, 0x86, 0x48, 0x86, 0xf7, 0x0d, 0x01, 0x01, 0x01,
             0x05, 0x00]"

text \<open>
  \<^verbatim>\<open>
  private createRSAPublicKeyDER(n: ArrayBuffer, e: ArrayBuffer): ArrayBuffer {
    const nInteger = this.encodeInteger(nBytes);
    const eInteger = this.encodeInteger(eBytes);
    const sequence = new Uint8Array([...nInteger, ...eInteger]);
    const sequenceLength = this.encodeLength(sequence.length);
    const rsaSequence = new Uint8Array([0x30, ...sequenceLength, ...sequence]);
    const rsaOID = new Uint8Array([0x30, 0x0d, 0x06, 0x09, ..., 0x05, 0x00]);
    const bitStringLength = this.encodeLength(rsaSequence.length + 1);
    const bitString = new Uint8Array([0x03, ...bitStringLength, 0x00, ...rsaSequence]);
    const finalSequence = new Uint8Array([...rsaOID, ...bitString]);
    const finalLength = this.encodeLength(finalSequence.length);
    return new Uint8Array([0x30, ...finalLength, ...finalSequence]).buffer;
  }
  \<close>
\<close>

definition createRSAPublicKeyDER :: "8 word list \<Rightarrow> 8 word list \<Rightarrow> 8 word list" where
  "createRSAPublicKeyDER nBytes eBytes =
     (let nInteger = encodeInteger nBytes;
          eInteger = encodeInteger eBytes;
          sequence = nInteger @ eInteger;
          sequenceLength = encodeLength (length sequence);
          rsaSequence = 0x30 # sequenceLength @ sequence;
          bitStringLength = encodeLength (length rsaSequence + 1);
          bitString = 0x03 # bitStringLength @ 0x00 # rsaSequence;
          finalSequence = rsaOID @ bitString;
          finalLength = encodeLength (length finalSequence)
      in 0x30 # finalLength @ finalSequence)"

subsection \<open>A reader of DER, for the round trip\<close>

text \<open>
  The repository hands the encoded key to the platform's \<open>importKey\<close>; it has no
  decoder. The round-trip property is stated against this reader of the
  Distinguished Encoding Rules: definite lengths in their shortest form (short form
  below 128; long form with a count byte \<open>0x80 | k\<close> followed by \<open>k\<close> big-endian bytes,
  the first non-zero), tag-length-value triples, INTEGER contents in big-endian two's
  complement in their shortest form (X.690, 8.3.2: at least one byte, and the first
  nine bits neither all zero nor all one), and the SubjectPublicKeyInfo of an RSA key.
\<close>

definition beValue :: "8 word list \<Rightarrow> nat" where
  "beValue bs = foldl (\<lambda>a b. a * 256 + unat b) 0 bs"

fun derLength :: "8 word list \<Rightarrow> (nat \<times> 8 word list) option" where
  "derLength [] = None"
| "derLength (b # rest) =
     (if b < 0x80 then Some (unat b, rest)
      else let k = unat (b AND 0x7f) in
        if k = 0 \<or> length rest < k then None
        else let v = beValue (take k rest) in
          if hd rest = 0 \<or> v < 0x80 then None
          else Some (v, drop k rest))"

definition derTLV :: "8 word \<Rightarrow> 8 word list \<Rightarrow> (8 word list \<times> 8 word list) option" where
  "derTLV tag bs =
     (case bs of
        [] \<Rightarrow> None
      | t # rest \<Rightarrow>
          if t \<noteq> tag then None
          else (case derLength rest of
                  None \<Rightarrow> None
                | Some (n, body) \<Rightarrow>
                    if length body < n then None else Some (take n body, drop n body)))"

definition redundantLead :: "8 word list \<Rightarrow> bool" where
  "redundantLead content =
     (case content of
        b # b' # _ \<Rightarrow> (b = 0x00 \<and> b' < 0x80) \<or> (b = 0xff \<and> b' \<ge> 0x80)
      | _ \<Rightarrow> False)"

definition derInteger :: "8 word list \<Rightarrow> int option" where
  "derInteger content =
     (case content of
        [] \<Rightarrow> None
      | b # _ \<Rightarrow>
          if redundantLead content then None
          else Some (if b \<ge> 0x80 then int (beValue content) - 256 ^ length content
                     else int (beValue content)))"

definition parseSPKI :: "8 word list \<Rightarrow> (int \<times> int) option" where
  "parseSPKI der = do {
     (spki, r0) \<leftarrow> derTLV 0x30 der;
     (algorithm, r1) \<leftarrow> derTLV 0x30 spki;
     (bits, r2) \<leftarrow> derTLV 0x03 r1;
     (rsa, r3) \<leftarrow> (case bits of [] \<Rightarrow> None
                    | u # rsaKey \<Rightarrow> if u = 0 then derTLV 0x30 rsaKey else None);
     (nContent, r4) \<leftarrow> derTLV 0x02 rsa;
     (eContent, r5) \<leftarrow> derTLV 0x02 r4;
     n \<leftarrow> derInteger nContent;
     e \<leftarrow> derInteger eContent;
     if r0 = [] \<and> r2 = [] \<and> r3 = [] \<and> r5 = [] \<and> 0x30 # 0x0d # algorithm = rsaOID
     then Some (n, e) else None
   }"

text \<open>The big-endian digits of a number in base 256, and the bytes \<open>encodeInteger\<close> puts
  after the length; both only serve the proofs. \<open>minimalBytes\<close> holds of the unsigned
  big-endian byte sequences without a superfluous leading zero byte: a zero byte in
  front is kept only where the byte after it has its top bit set.\<close>

fun beBytes :: "nat \<Rightarrow> nat list" where
  "beBytes n = (if n = 0 then [] else beBytes (n div 256) @ [n mod 256])"

declare beBytes.simps [simp del]

definition paddedBytes :: "8 word list \<Rightarrow> 8 word list" where
  "paddedBytes bytes = (if bytes \<noteq> [] \<and> hd bytes \<ge> 0x80 then 0 # bytes else bytes)"

definition minimalBytes :: "8 word list \<Rightarrow> bool" where
  "minimalBytes bytes =
     (case bytes of
        [] \<Rightarrow> False
      | [b] \<Rightarrow> True
      | b # b' # _ \<Rightarrow> \<not> (b = 0x00 \<and> b' < 0x80))"

section \<open>The platform\<close>

text \<open>
  What the code calls and does not define: \<open>atob\<close> (which throws on text that is not
  base64), \<open>JSON.parse\<close>, \<open>fetch\<close>, the Web Crypto API, and the conversions JavaScript
  applies to a value of unknown shape. They are parameters of the model. \<open>fetch\<close> is
  given by the outcome of its first, second, ... call; the number of calls made so
  far is threaded through the client's operations.
\<close>

record JWKSKey =
  jwk_kty :: string
  jwk_kid :: string
  jwk_n :: "string option"
  jwk_e :: "string option"

record JWKSResponse =
  jwks_keys :: "JWKSKey list"

text \<open>A call of \<open>fetch\<close> rejects, or resolves to a response with \<open>ok\<close>, \<open>status\<close>,
  \<open>statusText\<close> and the outcome of \<open>json()\<close>.\<close>

datatype fetchOutcome =
    Rejected exception
  | Response bool nat string "exception + JWKSResponse"

type_synonym cryptoKey = nat

record platform =
  atob :: "string \<Rightarrow> exception + string"
  JSON_parse :: "string \<Rightarrow> exception + json"
  fetch :: "nat \<Rightarrow> fetchOutcome"
  cryptoSubtle :: bool
  importKey :: "8 word list \<Rightarrow> exception + cryptoKey"
  subtleVerify :: "cryptoKey \<Rightarrow> 8 word list \<Rightarrow> string \<Rightarrow> exception + bool"
  toNumberOf :: "json \<Rightarrow> exception + number"
  toStringOf :: "json \<Rightarrow> exception + string"

text \<open>
  \<open>constants.ts\<close> is not among the sources. \<open>jwksMaxAttempts\<close> is the 3 of the
  specification and of the comment on \<open>fetchJwksWithRetry\<close>; the PEM markers are the
  ones the tests match.
\<close>

definition jwksMaxAttempts :: nat where
  "jwksMaxAttempts = 3"

definition pemHeader :: string where
  "pemHeader = ''-----BEGIN PUBLIC KEY-----''"

definition pemFooter :: string where
  "pemFooter = ''-----END PUBLIC KEY-----''"

text \<open>A number in a template literal: the decimal digits of a natural number.\<close>

fun decimal :: "nat \<Rightarrow> string" where
  "decimal n = (if n < 10 then [char_of (48 + n)]
                else decimal (n div 10) @ [char_of (48 + n mod 10)])"

declare decimal.simps [simp del]

text \<open>\<open>error instanceof Error ? error.message : fallback\<close>.\<close>

definition messageOr :: "exception \<Rightarrow> string \<Rightarrow> string" where
  "messageOr error fallback = (case error of Error m \<Rightarrow> m | NonError \<Rightarrow> fallback)"

section \<open>utils/crypto.ts: the base64 helpers\<close>

text \<open>
  \<^verbatim>\<open>
  export function base64urlDecode(str: string): string {
    const padding = '='.repeat((4 - (str.length % 4)) % 4);
    const base64 = str.replace(/-/g, '+').replace(/_/g, '/') + padding;
    return atob(base64);
  }
  export function base64urlToArrayBuffer(base64url: string): Uint8Array {
    ... const binary = atob(base64);
    for (let i = 0; i < binary.length; i++) { view[i] = binary.charCodeAt(i); }
    return view;
  }
  \<close>
\<close>

definition toBase64 :: "string \<Rightarrow> string" where
  "toBase64 str =
     (let padding = replicate ((4 - length str mod 4) mod 4) (CHR ''='')
      in map (\<lambda>c. if c = CHR ''-'' then CHR ''+'' else if c = CHR ''_'' then CHR ''/'' else c) str
         @ padding)"

definition base64urlDecode :: "platform \<Rightarrow> string \<Rightarrow> exception + string" where
  "base64urlDecode p str = atob p (toBase64 str)"

definition base64urlToArrayBuffer :: "platform \<Rightarrow> string \<Rightarrow> exception + 8 word list" where
  "base64urlToArrayBuffer p base64url =
     (case atob p (toBase64 base64url) of
        Inl error \<Rightarrow> Inl error
      | Inr binary \<Rightarrow> Inr (map (\<lambda>c. of_nat (of_char c)) binary))"

text \<open>
  \<open>arrayBufferToBase64\<close> is \<open>btoa\<close> of the bytes as a binary string. \<open>btoa\<close> never
  throws on such a string; it is the base64 of RFC 4648, written out here.
\<close>

definition base64Alphabet :: string where
  "base64Alphabet = ''ABCDEFGHIJKLMNOPQRSTUVWXYZabcdefghijklmnopqrstuvwxyz0123456789+/''"

definition b64 :: "nat \<Rightarrow> char" where
  "b64 i = base64Alphabet ! (i mod 64)"

fun base64Groups :: "nat list \<Rightarrow> string" where
  "base64Groups [] = []"
| "base64Groups [a] = [b64 (a div 4), b64 ((a mod 4) * 16), CHR ''='', CHR ''='']"
| "base64Groups [a, b] =
     [b64 (a div 4), b64 ((a mod 4) * 16 + b div 16), b64 ((b mod 16) * 4), CHR ''='']"
| "base64Groups (a # b # c # rest) =
     [b64 (a div 4), b64 ((a mod 4) * 16 + b div 16), b64 ((b mod 16) * 4 + c div 64),
      b64 (c mod 64)] @ base64Groups rest"

definition arrayBufferToBase64 :: "8 word list \<Rightarrow> string" where
  "arrayBufferToBase64 bytes = base64Groups (map unat bytes)"

text \<open>
  \<open>base64Der.match(/.{1,64}/g)\<close>: the successive matches of one to sixty-four
  characters other than line terminators; \<open>null\<close> (here the empty list) when there is
  none.
\<close>

definition isLineTerminator :: "char \<Rightarrow> bool" where
  "isLineTerminator c = (c = CHR 0x0A \<or> c = CHR 0x0D)"

function matchChunks :: "string \<Rightarrow> string list" where
  "matchChunks s =
     (case s of
        [] \<Rightarrow> []
      | c # cs \<Rightarrow>
          if isLineTerminator c then matchChunks cs
          else let m = c # takeWhile (\<lambda>x. \<not> isLineTerminator x) (take 63 cs)
               in m # matchChunks (drop (length m) s))"
  by pat_completeness auto
termination
  by (relation "measure length") auto

declare matchChunks.simps [simp del]

definition joinWith :: "string \<Rightarrow> string list \<Rightarrow> string" where
  "joinWith sep xs = (case xs of [] \<Rightarrow> [] | x # rest \<Rightarrow> x @ concat (map (\<lambda>y. sep @ y) rest))"

section \<open>jwks-client.ts: the client\<close>

text \<open>
  \<^verbatim>\<open>
  private jwkToPem(jwk: JWKSKey): string {
    if (!jwk.n || !jwk.e) { throw new Error('Invalid JWK: missing n or e parameters'); }
    const nBuffer = base64urlToArrayBuffer(jwk.n);
    const keyBitLength = nBuffer.byteLength * 8;
    if (keyBitLength < 2048) {
      throw new Error(`RSA key too weak: ${keyBitLength} bits. 2048 bits minimum required.`);
    }
    const derBytes = this.createRSAPublicKeyDER(nBuffer, base64urlToArrayBuffer(jwk.e));
    const base64Der = arrayBufferToBase64(derBytes);
    const pemBody = base64Der.match(/.{1,64}/g)?.join('\n');
    if (!pemBody) { throw new Error('Failed to format PEM body'); }
    return `${pemHeader}\n${pemBody}\n${pemFooter}`;
  }
  \<close>
\<close>

definition weakKeyError :: "nat \<Rightarrow> exception" where
  "weakKeyError keyBitLength =
     Error (''RSA key too weak: '' @ decimal keyBitLength @ '' bits. 2048 bits minimum required.'')"

definition jwkToPem :: "platform \<Rightarrow> JWKSKey \<Rightarrow> exception + string" where
  "jwkToPem p jwk =
     (case (jwk_n jwk, jwk_e jwk) of
        (Some n, Some e) \<Rightarrow>
          if n = [] \<or> e = [] then Inl (Error ''Invalid JWK: missing n or e parameters'')
          else (case base64urlToArrayBuffer p n of
                  Inl error \<Rightarrow> Inl error
                | Inr nBuffer \<Rightarrow>
                    let keyBitLength = length nBuffer * 8 in
                    if keyBitLength < 2048 then Inl (weakKeyError keyBitLength)
                    else (case base64urlToArrayBuffer p e of
                            Inl error \<Rightarrow> Inl error
                          | Inr eBuffer \<Rightarrow>
                              let derBytes = createRSAPublicKeyDER nBuffer eBuffer;
                                  base64Der = arrayBufferToBase64 derBytes;
                                  pemBody = joinWith [CHR 0x0A] (matchChunks base64Der)
                              in if pemBody = [] then Inl (Error ''Failed to format PEM body'')
                                 else Inr (pemHeader @ [CHR 0x0A] @ pemBody @ [CHR 0x0A]
                                             @ pemFooter)))
      | _ \<Rightarrow> Inl (Error ''Invalid JWK: missing n or e parameters''))"

text \<open>
  \<^verbatim>\<open>
  private async fetchJwksWithRetry(): Promise<JWKSResponse> {
    for (let attempt = 1; attempt <= jwksMaxAttempts; attempt++) {
      try {
        const response = await fetch(this.jwksUri);
        if (!response.ok) { throw new Error(`HTTP ${response.status}: ${response.statusText}`); }
        return await response.json() as unknown as JWKSResponse;
      } catch (error) {
        const isLastAttempt = attempt === jwksMaxAttempts;
        if (isLastAttempt) {
          throw new Error(`Failed to fetch JWKS after ${jwksMaxAttempts} attempts: ${
            error instanceof Error ? error.message : 'Unknown error'}`);
        }
        await new Promise(resolve => setTimeout(resolve, jwksRetryDelayMs));
      }
    }
    throw new Error('Unexpected error in JWKS fetch retry logic');
  }
  \<close>
  \<open>fetched\<close> counts the calls of \<open>fetch\<close> made so far; the result carries the new count.
\<close>

definition attemptFetch :: "fetchOutcome \<Rightarrow> exception + JWKSResponse" where
  "attemptFetch outcome =
     (case outcome of
        Rejected error \<Rightarrow> Inl error
      | Response ok status statusText body \<Rightarrow>
          if \<not> ok then Inl (Error (''HTTP '' @ decimal status @ '': '' @ statusText))
          else body)"

function fetchLoop ::
  "platform \<Rightarrow> nat \<Rightarrow> nat \<Rightarrow> nat \<Rightarrow> nat \<times> (exception + JWKSResponse)" where
  "fetchLoop p maxAttempts attempt fetched =
     (if attempt \<le> maxAttempts then
        (case attemptFetch (fetch p fetched) of
           Inr jwks \<Rightarrow> (Suc fetched, Inr jwks)
         | Inl error \<Rightarrow>
             if attempt = maxAttempts
             then (Suc fetched,
                   Inl (Error (''Failed to fetch JWKS after '' @ decimal maxAttempts
                          @ '' attempts: '' @ messageOr error ''Unknown error'')))
             else fetchLoop p maxAttempts (Suc attempt) (Suc fetched))
      else (fetched, Inl (Error ''Unexpected error in JWKS fetch retry logic'')))"
  by pat_completeness auto
termination
  by (relation "measure (\<lambda>(p, maxAttempts, attempt, fetched). Suc maxAttempts - attempt)") auto

declare fetchLoop.simps [simp del]

definition fetchJwksWithRetry :: "platform \<Rightarrow> nat \<Rightarrow> nat \<times> (exception + JWKSResponse)" where
  "fetchJwksWithRetry p fetched = fetchLoop p jwksMaxAttempts 1 fetched"

record JWKSClientConfig =
  cfgJwksUri :: "string option"
  cfgCacheMaxSize :: "number option"
  cfgCacheTtl :: "number option"

record JWKSClient =
  clientCache :: LRUCache
  jwksUri :: string

text \<open>
  \<^verbatim>\<open>
  constructor(config: JWKSClientConfig) {
    if (!config?.jwksUri?.trim()) { throw new Error('A valid JWKS URI is required.'); }
    this.jwksUri = config.jwksUri;
    this.cache = new LRUCache({ maxSize: config.cacheMaxSize ?? 20, ttl: config.cacheTtl });
  }
  \<close>
\<close>

definition JWKSClient_new :: "JWKSClientConfig \<Rightarrow> exception + JWKSClient" where
  "JWKSClient_new config =
     (case cfgJwksUri config of
        None \<Rightarrow> Inl (Error ''A valid JWKS URI is required.'')
      | Some uri \<Rightarrow>
          if trim uri = [] then Inl (Error ''A valid JWKS URI is required.'')
          else (case LRUCache_new \<lparr> optMaxSize = (case cfgCacheMaxSize config of
                                                     None \<Rightarrow> Finite 20 | Some m \<Rightarrow> m),
                                      optTtl = cfgCacheTtl config \<rparr> of
                  Inl error \<Rightarrow> Inl error
                | Inr c \<Rightarrow> Inr \<lparr> clientCache = c, jwksUri = uri \<rparr>))"

text \<open>
  \<^verbatim>\<open>
  async getSigningKey(kid: string): Promise<string> {
    const cachedKey = this.cache.get(kid);
    if (cachedKey) { return cachedKey; }
    const jwks = await this.fetchJwksWithRetry();
    const jwk = jwks.keys.find(k => k.kid === kid);
    if (!jwk) { throw new Error(`Unable to find a signing key that matches '${kid}'`); }
    if (jwk.kty !== 'RSA') { throw new Error('Only RSA keys are supported'); }
    const publicKey = this.jwkToPem(jwk);
    this.cache.set(kid, publicKey);
    return publicKey;
  }
  \<close>
  \<open>nowGet\<close> is the clock at \<open>cache.get\<close>, \<open>nowSet\<close> the clock at \<open>cache.set\<close>, after the
  fetch. The result is the new count of fetch calls, the client with its cache, and
  the key or the exception thrown.
\<close>

definition getSigningKey ::
  "platform \<Rightarrow> JWKSClient \<Rightarrow> string \<Rightarrow> int \<Rightarrow> int \<Rightarrow> nat
     \<Rightarrow> nat \<times> JWKSClient \<times> (exception + string)" where
  "getSigningKey p client kid nowGet nowSet fetched =
     (let (c1, cachedKey) = LRUCache_get (clientCache client) kid nowGet;
          client1 = client\<lparr>clientCache := c1\<rparr>
      in case (case cachedKey of None \<Rightarrow> None | Some k \<Rightarrow> if k = [] then None else Some k) of
           Some k \<Rightarrow> (fetched, client1, Inr k)
         | None \<Rightarrow>
             (case fetchJwksWithRetry p fetched of
                (fetched', Inl error) \<Rightarrow> (fetched', client1, Inl error)
              | (fetched', Inr jwks) \<Rightarrow>
                  (case find (\<lambda>k. jwk_kid k = kid) (jwks_keys jwks) of
                     None \<Rightarrow>
                       (fetched', client1,
                        Inl (Error (''Unable to find a signing key that matches ''
                               @ [CHR 0x27] @ kid @ [CHR 0x27])))
                   | Some jwk \<Rightarrow>
                       if jwk_kty jwk \<noteq> ''RSA''
                       then (fetched', client1, Inl (Error ''Only RSA keys are supported''))
                       else (case jwkToPem p jwk of
                               Inl error \<Rightarrow> (fetched', client1, Inl error)
                             | Inr publicKey \<Rightarrow>
                                 (fetched',
                                  client1\<lparr>clientCache := LRUCache_set c1 kid publicKey nowSet\<rparr>,
                                  Inr publicKey)))))"

text \<open>\<open>clear()\<close> delegates to the cache.\<close>

definition JWKSClient_clear :: "JWKSClient \<Rightarrow> JWKSClient" where
  "JWKSClient_clear client = client\<lparr>clientCache := LRUCache_clear (clientCache client)\<rparr>"

text \<open>A history of a client: calls of \<open>getSigningKey\<close> (key id, the two clock readings)
  and of \<open>clear\<close>, threading the count of fetch calls.\<close>

datatype clientCall = GetKey string int int | ClearKeys

fun clientCalls ::
  "platform \<Rightarrow> nat \<times> JWKSClient \<Rightarrow> clientCall list \<Rightarrow> nat \<times> JWKSClient" where
  "clientCalls p s [] = s"
| "clientCalls p (fetched, client) (GetKey kid nowGet nowSet # rest) =
     (case getSigningKey p client kid nowGet nowSet fetched of
        (fetched', client', r) \<Rightarrow> clientCalls p (fetched', client') rest)"
| "clientCalls p (fetched, client) (ClearKeys # rest) =
     clientCalls p (fetched, JWKSClient_clear client) rest"

text \<open>A platform for concrete runs: \<open>atob\<close> decodes \<open>AQAB\<close> and strings of \<open>A\<close>s (zero
  bytes), every \<open>fetch\<close> rejects, and nothing parses.\<close>

definition stubPlatform :: platform where
  "stubPlatform =
     \<lparr> atob = (\<lambda>s. if s = ''AQAB'' then Inr [CHR 0x01, CHR 0x00, CHR 0x01]
                    else Inr (replicate (length (filter (\<lambda>c. c \<noteq> CHR ''='') s) * 3 div 4) (CHR 0x00))),
       JSON_parse = (\<lambda>s. Inl (Error ''Unexpected token'')),
       fetch = (\<lambda>i. Rejected (Error ''Network error'')),
       cryptoSubtle = True,
       importKey = (\<lambda>der. Inr 0),
       subtleVerify = (\<lambda>k s d. Inr False),
       toNumberOf = (\<lambda>j. Inr NaN),
       toStringOf = (\<lambda>j. Inr ''[object Object]'') \<rparr>"

text \<open>What holds of a client between calls: its cache is well-formed and every cached
  value is a non-empty text.\<close>

definition clientOK :: "JWKSClient \<Rightarrow> bool" where
  "clientOK client \<longleftrightarrow>
     wellFormed (clientCache client)
     \<and> list_all (\<lambda>p. val (snd p) \<noteq> []) (cache (clientCache client))"

text \<open>
  The number of bits a modulus represents (the position of its highest set bit; 0 for
  the number 0), and a platform whose \<open>atob\<close> also decodes the base64 text of the
  256 bytes \<open>01 00 ... 00\<close>, the number \<open>2^2040\<close>.
\<close>

fun bitLength :: "nat \<Rightarrow> nat" where
  "bitLength m = (if m = 0 then 0 else Suc (bitLength (m div 2)))"

declare bitLength.simps [simp del]

definition leadingOnePlatform :: platform where
  "leadingOnePlatform =
     stubPlatform
       \<lparr> atob := (\<lambda>s. if s = ''AQ'' @ replicate 340 (CHR ''A'') @ replicate 2 (CHR ''='')
                       then Inr (CHR 0x01 # replicate 255 (CHR 0x00))
                       else atob stubPlatform s) \<rparr>"

section \<open>utils/crypto.ts: verifyRS256Signature\<close>

text \<open>\<open>String.prototype.includes\<close> (\<open>includesText\<close>) and \<open>replace\<close> with a string pattern (the first
  occurrence only).\<close>

fun includesText :: "string \<Rightarrow> string \<Rightarrow> bool" where
  "includesText [] pat = (pat = [])"
| "includesText (c # cs) pat = (startsWith (c # cs) pat \<or> includesText cs pat)"

fun replaceFirst :: "string \<Rightarrow> string \<Rightarrow> string \<Rightarrow> string" where
  "replaceFirst [] pat r = (if pat = [] then r else [])"
| "replaceFirst (c # cs) pat r =
     (if startsWith (c # cs) pat then r @ drop (length pat) (c # cs)
      else c # replaceFirst cs pat r)"

text \<open>
  \<^verbatim>\<open>
  async function importRSAPublicKey(pemKey: string): Promise<CryptoKey> {
    try {
      if (!pemKey.includes(pemHeader) || !pemKey.includes(pemFooter)) {
        throw new Error('Invalid PEM format - missing headers');
      }
      const pemContents = pemKey.replace(pemHeader, '').replace(pemFooter, '').replace(/\s/g, '');
      const binaryDer = atob(pemContents);
      ... derView[i] = binaryDer.charCodeAt(i) ...
      return await crypto.subtle.importKey('spki', derView, ..., false, ['verify']);
    } catch (error) {
      throw new Error(`Failed to import RSA public key: ${
        error instanceof Error ? error.message : 'Unknown error'}`);
    }
  }
  \<close>
\<close>

definition importRSAPublicKey :: "platform \<Rightarrow> string \<Rightarrow> exception + cryptoKey" where
  "importRSAPublicKey p pemKey =
     (let attempt =
        (if \<not> includesText pemKey pemHeader \<or> \<not> includesText pemKey pemFooter
         then Inl (Error ''Invalid PEM format - missing headers'')
         else let pemContents =
                    filter (\<lambda>c. \<not> isWhiteSpace c)
                      (replaceFirst (replaceFirst pemKey pemHeader []) pemFooter [])
              in case atob p pemContents of
                   Inl error \<Rightarrow> Inl error
                 | Inr binaryDer \<Rightarrow> importKey p (map (\<lambda>c. of_nat (of_char c)) binaryDer))
      in case attempt of
           Inl error \<Rightarrow>
             Inl (Error (''Failed to import RSA public key: '' @ messageOr error ''Unknown error''))
         | Inr k \<Rightarrow> Inr k)"

text \<open>
  \<^verbatim>\<open>
  export async function verifyRS256Signature(data, signature, publicKeyPem): Promise<boolean> {
    try {
      if (!data || !signature || !publicKeyPem) { return false; }
      if (typeof crypto === 'undefined' || !crypto.subtle) { return false; }
      const signatureBuffer = base64urlToArrayBuffer(signature);
      const dataBuffer = new TextEncoder().encode(data);
      const publicKey = await importRSAPublicKey(publicKeyPem);
      const isValid = await crypto.subtle.verify({...}, publicKey, signatureBuffer, dataBuffer);
      return isValid;
    } catch (error) { return false; }
  }
  \<close>
  The platform's \<open>subtleVerify\<close> takes the data as text and encodes it itself.
\<close>

definition verifyRS256Signature :: "platform \<Rightarrow> string \<Rightarrow> string \<Rightarrow> string \<Rightarrow> bool" where
  "verifyRS256Signature p signedData signature publicKeyPem =
     (if signedData = [] \<or> signature = [] \<or> publicKeyPem = [] then False
      else if \<not> cryptoSubtle p then False
      else (case base64urlToArrayBuffer p signature of
              Inl error \<Rightarrow> False
            | Inr signatureBuffer \<Rightarrow>
                (case importRSAPublicKey p publicKeyPem of
                   Inl error \<Rightarrow> False
                 | Inr publicKey \<Rightarrow>
                     (case subtleVerify p publicKey signatureBuffer signedData of
                        Inl error \<Rightarrow> False
                      | Inr isValidSignature \<Rightarrow> isValidSignature))))"

section \<open>validator.ts: validate\<close>

text \<open>
  The header and the payload are whatever \<open>JSON.parse\<close> returned. Reading a property of
  \<open>null\<close> throws a \<open>TypeError\<close> (the message is V8's); reading \<open>alg\<close>, \<open>kid\<close>, \<open>iss\<close>,
  \<open>exp\<close> or \<open>nbf\<close> of a number, a string, a boolean or an array gives \<open>undefined\<close>
  (\<open>None\<close>); an object gives the property it holds under the name.
\<close>

definition getProperty :: "json \<Rightarrow> string \<Rightarrow> exception + json option" where
  "getProperty j name =
     (case j of
        JNull \<Rightarrow>
          Inl (Error (''Cannot read properties of null (reading '' @ [CHR 0x27] @ name
                        @ [CHR 0x27] @ '')''))
      | JObject props \<Rightarrow> Inr (map_of props name)
      | _ \<Rightarrow> Inr None)"

text \<open>Truthiness, \<open>ToNumber\<close> and the text of a value in a template literal. What they
  do to strings, arrays and objects (where they can throw) is the platform's.\<close>

definition truthyJson :: "json option \<Rightarrow> bool" where
  "truthyJson v =
     (case v of
        None \<Rightarrow> False
      | Some JNull \<Rightarrow> False
      | Some (JBool b) \<Rightarrow> b
      | Some (JNumber x) \<Rightarrow> truthy x
      | Some (JString s) \<Rightarrow> s \<noteq> []
      | Some (JArray xs) \<Rightarrow> True
      | Some (JObject props) \<Rightarrow> True)"

definition toNumber :: "platform \<Rightarrow> json \<Rightarrow> exception + number" where
  "toNumber p j =
     (case j of
        JNumber x \<Rightarrow> Inr x
      | JBool b \<Rightarrow> Inr (Finite (if b then 1 else 0))
      | JNull \<Rightarrow> Inr (Finite 0)
      | _ \<Rightarrow> toNumberOf p j)"

definition templateText :: "platform \<Rightarrow> json option \<Rightarrow> exception + string" where
  "templateText p v =
     (case v of
        None \<Rightarrow> Inr ''undefined''
      | Some JNull \<Rightarrow> Inr ''null''
      | Some (JBool b) \<Rightarrow> Inr (if b then ''true'' else ''false'')
      | Some (JString s) \<Rightarrow> Inr s
      | Some j \<Rightarrow> toStringOf p j)"

text \<open>
  \<open>x * 1000\<close> on JavaScript numbers, which are IEEE 754 doubles: the exact product of
  two finite doubles, rounded to the nearest double, ties to the even significand
  (\<open>toDouble\<close>: 53 bits of precision, the last place no finer than \<open>2^-1074\<close>, infinity
  from \<open>2^1024\<close> on after rounding). \<open>bitsOf a\<close> is the number of binary digits of a
  positive \<open>a\<close>, \<open>exponentOf q\<close> the \<open>e\<close> with \<open>2^e \<le> q < 2^(e+1)\<close> for a positive \<open>q\<close>.
  The model has one zero. Then \<open>a >= b\<close>.
\<close>

function bitsOf :: "int \<Rightarrow> int" where
  "bitsOf a = (if a \<le> 0 then 0 else 1 + bitsOf (a div 2))"
  by pat_completeness auto
termination
  by (relation "measure nat") auto

declare bitsOf.simps [simp del]

definition pow2 :: "int \<Rightarrow> rat" where
  "pow2 e = (if 0 \<le> e then 2 ^ nat e else 1 / 2 ^ nat (- e))"

definition roundHalfEven :: "rat \<Rightarrow> int" where
  "roundHalfEven q =
     (let f = \<lfloor>q\<rfloor>; r = q - of_int f
      in if r < 1 / 2 then f else if 1 / 2 < r then f + 1 else if even f then f else f + 1)"

definition exponentOf :: "rat \<Rightarrow> int" where
  "exponentOf q =
     (let d = bitsOf (fst (quotient_of q)) - bitsOf (snd (quotient_of q))
      in if pow2 d \<le> q then d else d - 1)"

definition toDouble :: "rat \<Rightarrow> number" where
  "toDouble q =
     (if q = 0 then Finite 0
      else let m = \<bar>q\<bar>;
               u = max (exponentOf m - 52) (- 1074);
               r = of_int (roundHalfEven (m / pow2 u)) * pow2 u
           in if pow2 1024 \<le> r then (if 0 < q then PosInfinity else NegInfinity)
              else Finite (if 0 < q then r else - r))"

fun times1000 :: "number \<Rightarrow> number" where
  "times1000 (Finite q) = toDouble (q * 1000)"
| "times1000 NaN = NaN"
| "times1000 PosInfinity = PosInfinity"
| "times1000 NegInfinity = NegInfinity"

definition greaterEqNumber :: "number \<Rightarrow> number \<Rightarrow> bool" where
  "greaterEqNumber a b = (a \<noteq> NaN \<and> b \<noteq> NaN \<and> \<not> lessNumber a b)"

text \<open>\<open>token.split('.')\<close>.\<close>

fun splitOn :: "char \<Rightarrow> string \<Rightarrow> string list" where
  "splitOn sep [] = [[]]"
| "splitOn sep (c # cs) =
     (if c = sep then [] # splitOn sep cs
      else (case splitOn sep cs of
              [] \<Rightarrow> [[c]]
            | x # xs \<Rightarrow> (c # x) # xs))"

record ValidationResult =
  isValid :: bool
  payload :: "json option"
  errorMessage :: "string option"

definition invalid :: "string \<Rightarrow> ValidationResult" where
  "invalid message = \<lparr> isValid = False, payload = None, errorMessage = Some message \<rparr>"

text \<open>
  The validator holds its issuer, its allowlist and the injected key-set client, of
  which \<open>validate\<close> uses \<open>getSigningKey\<close> only: here the outcome (the key, or the
  exception) of that call on the value of \<open>header.kid\<close>.
\<close>

record validator =
  issuer :: string
  algorithms :: "string list"
  jwksGetSigningKey :: "json \<Rightarrow> exception + string"

text \<open>
  The inner \<open>try\<close>: \<open>JSON.parse(base64urlDecode(headerB64))\<close>, then the same for the
  payload; any exception there is answered with "Invalid JWT encoding".
\<close>

definition decodeSegment :: "platform \<Rightarrow> string \<Rightarrow> exception + json" where
  "decodeSegment p segment =
     (case base64urlDecode p segment of
        Inl error \<Rightarrow> Inl error
      | Inr decoded \<Rightarrow> JSON_parse p decoded)"

text \<open>
  \<^verbatim>\<open>
  async validate(token: string): Promise<JwtValidationResult> {
    try {
      if (!token) { return { isValid: false, errorMessage: 'No token provided' }; }
      const parts = token.split('.');
      if (parts.length !== 3) { return { isValid: false, errorMessage: 'Invalid JWT format' }; }
      const [headerB64, payloadB64, signatureB64] = parts;
      try { header = JSON.parse(base64urlDecode(headerB64));
            payload = JSON.parse(base64urlDecode(payloadB64)); }
      catch (error) { return { isValid: false, errorMessage: 'Invalid JWT encoding' }; }
      if (!validateAlgorithm(header.alg, this.algorithms)) {
        return { isValid: false, errorMessage:
          `Algorithm ${header.alg} not allowed. Expected one of: ${this.algorithms.join(', ')}` };
      }
      if (payload.iss !== this.issuer) {
        return { isValid: false,
                 errorMessage: `Invalid issuer. Expected ${this.issuer}, got ${payload.iss}` };
      }
      if (payload.exp && Date.now() >= payload.exp * 1000) {
        return { isValid: false, errorMessage: 'Token has expired' };
      }
      if (payload.nbf && Date.now() < payload.nbf * 1000) {
        return { isValid: false, errorMessage: 'Token not yet valid' };
      }
      if (!header.kid) {
        return { isValid: false, errorMessage: 'Token header missing kid (key ID)' };
      }
      let publicKey: string;
      try { publicKey = await this.jwksClient.getSigningKey(header.kid); }
      catch (error) {
        return { isValid: false, errorMessage:
          `Failed to get signing key: ${error instanceof Error ? error.message : 'Unknown error'}` };
      }
      const signatureValid =
        await verifyRS256Signature(`${headerB64}.${payloadB64}`, signatureB64, publicKey);
      if (!signatureValid) { return { isValid: false, errorMessage: 'Invalid signature' }; }
      return { isValid: true, payload };
    } catch (error) {
      return { isValid: false,
               errorMessage: error instanceof Error ? error.message : 'Token validation failed' };
    }
  }
  \<close>
  \<open>validateChecks\<close> is the sequence from the algorithm check on, \<open>validateBody\<close> the
  body of the outer \<open>try\<close>: \<open>Inl\<close> is an exception that reaches the outer \<open>catch\<close>.
  \<open>now\<close> is the reading of \<open>Date.now()\<close>.
\<close>

definition checkTime ::
  "platform \<Rightarrow> json option \<Rightarrow> (number \<Rightarrow> bool) \<Rightarrow> exception + bool" where
  "checkTime p claim test =
     (if \<not> truthyJson claim then Inr False
      else (case claim of
              None \<Rightarrow> Inr False
            | Some j \<Rightarrow>
                (case toNumber p j of
                   Inl error \<Rightarrow> Inl error
                 | Inr x \<Rightarrow> Inr (test (times1000 x)))))"

definition verifyWithKey ::
  "platform \<Rightarrow> validator \<Rightarrow> json \<Rightarrow> string \<Rightarrow> string \<Rightarrow> string \<Rightarrow> json
     \<Rightarrow> ValidationResult" where
  "verifyWithKey p v kid headerB64 payloadB64 signatureB64 payloadJson =
     (case jwksGetSigningKey v kid of
        Inl error \<Rightarrow>
          invalid (''Failed to get signing key: '' @ messageOr error ''Unknown error'')
      | Inr publicKey \<Rightarrow>
          if \<not> verifyRS256Signature p (headerB64 @ ''.'' @ payloadB64) signatureB64 publicKey
          then invalid ''Invalid signature''
          else \<lparr> isValid = True, payload = Some payloadJson, errorMessage = None \<rparr>)"

definition validateChecks ::
  "platform \<Rightarrow> validator \<Rightarrow> int \<Rightarrow> string \<Rightarrow> string \<Rightarrow> string \<Rightarrow> json \<Rightarrow> json
     \<Rightarrow> exception + ValidationResult" where
  "validateChecks p v now headerB64 payloadB64 signatureB64 headerJson payloadJson =
     (case getProperty headerJson ''alg'' of
        Inl error \<Rightarrow> Inl error
      | Inr alg \<Rightarrow>
          if \<not> validateAlgorithm alg (algorithms v)
          then (case templateText p alg of
                  Inl error \<Rightarrow> Inl error
                | Inr algText \<Rightarrow>
                    Inr (invalid (''Algorithm '' @ algText @ '' not allowed. Expected one of: ''
                           @ joinWith '', '' (algorithms v))))
          else (case getProperty payloadJson ''iss'' of
                  Inl error \<Rightarrow> Inl error
                | Inr iss \<Rightarrow>
                    if iss \<noteq> Some (JString (issuer v))
                    then (case templateText p iss of
                            Inl error \<Rightarrow> Inl error
                          | Inr issText \<Rightarrow>
                              Inr (invalid (''Invalid issuer. Expected '' @ issuer v @ '', got ''
                                     @ issText)))
                    else (case getProperty payloadJson ''exp'' of
                            Inl error \<Rightarrow> Inl error
                          | Inr expClaim \<Rightarrow>
     (case checkTime p expClaim (\<lambda>x. greaterEqNumber (Finite (of_int now)) x) of
        Inl error \<Rightarrow> Inl error
      | Inr True \<Rightarrow> Inr (invalid ''Token has expired'')
      | Inr False \<Rightarrow>
          (case getProperty payloadJson ''nbf'' of
             Inl error \<Rightarrow> Inl error
           | Inr nbfClaim \<Rightarrow>
               (case checkTime p nbfClaim (\<lambda>x. lessNumber (Finite (of_int now)) x) of
                  Inl error \<Rightarrow> Inl error
                | Inr True \<Rightarrow> Inr (invalid ''Token not yet valid'')
                | Inr False \<Rightarrow>
                    (case getProperty headerJson ''kid'' of
                       Inl error \<Rightarrow> Inl error
                     | Inr kid \<Rightarrow>
                         if \<not> truthyJson kid
                         then Inr (invalid ''Token header missing kid (key ID)'')
                         else (case kid of
                                 None \<Rightarrow> Inr (invalid ''Token header missing kid (key ID)'')
                               | Some k \<Rightarrow>
                                   Inr (verifyWithKey p v k headerB64 payloadB64 signatureB64
                                          payloadJson)))))))))"

definition validateBody ::
  "platform \<Rightarrow> validator \<Rightarrow> string \<Rightarrow> int \<Rightarrow> exception + ValidationResult" where
  "validateBody p v token now =
     (if token = [] then Inr (invalid ''No token provided'')
      else (case splitOn (CHR ''.'') token of
              [headerB64, payloadB64, signatureB64] \<Rightarrow>
                (case decodeSegment p headerB64 of
                   Inl error \<Rightarrow> Inr (invalid ''Invalid JWT encoding'')
                 | Inr headerJson \<Rightarrow>
                     (case decodeSegment p payloadB64 of
                        Inl error \<Rightarrow> Inr (invalid ''Invalid JWT encoding'')
                      | Inr payloadJson \<Rightarrow>
                          validateChecks p v now headerB64 payloadB64 signatureB64
                            headerJson payloadJson))
            | _ \<Rightarrow> Inr (invalid ''Invalid JWT format'')))"

definition validate :: "platform \<Rightarrow> validator \<Rightarrow> string \<Rightarrow> int \<Rightarrow> ValidationResult" where
  "validate p v token now =
     (case validateBody p v token now of
        Inr result \<Rightarrow> result
      | Inl error \<Rightarrow> invalid (messageOr error ''Token validation failed''))"

text \<open>A platform on which every segment decodes to itself and parses to \<open>null\<close>, and a
  validator for the issuer \<open>https://idp.example\<close>, for concrete runs.\<close>

definition nullPlatform :: platform where
  "nullPlatform = stubPlatform\<lparr> atob := (\<lambda>s. Inr s), JSON_parse := (\<lambda>s. Inr JNull) \<rparr>"

definition exampleValidator :: validator where
  "exampleValidator =
     \<lparr> issuer = ''https://idp.example'', algorithms = [''RS256''],
       jwksGetSigningKey = (\<lambda>kid. Inl (Error ''Network error'')) \<rparr>"

text \<open>The shape of a result: the payload is present exactly when the result is valid,
  the error message exactly when it is not.\<close>

definition shaped :: "ValidationResult \<Rightarrow> bool" where
  "shaped r \<longleftrightarrow> (isValid r \<longleftrightarrow> payload r \<noteq> None) \<and> (\<not> isValid r \<longleftrightarrow> errorMessage r \<noteq> None)"

section \<open>Facts about the string helpers\<close>

lemma of_char_toLowerChar:
  "(of_char (toLowerChar c) :: nat) =
     (let n = of_char c in
      if (65 \<le> n \<and> n \<le> 90) \<or> (192 \<le> n \<and> n \<le> 222 \<and> n \<noteq> 215) then n + 32 else n)"
  by (simp add: toLowerChar_def Let_def)

lemma isWhiteSpace_toLowerChar: "isWhiteSpace (toLowerChar c) = isWhiteSpace c"
  unfolding isWhiteSpace_def of_char_toLowerChar by (simp add: Let_def)

lemma all_dropWhile: "(\<forall>x \<in> set (dropWhile P s). P x) \<longleftrightarrow> (\<forall>x \<in> set s. P x)"
  by (induction s) auto

lemma trim_empty_iff: "trim s = [] \<longleftrightarrow> (\<forall>c \<in> set s. isWhiteSpace c)"
  by (simp add: trim_def all_dropWhile)

lemma trim_toLowerCase_empty: "trim (toLowerCase s) = [] \<longleftrightarrow> trim s = []"
  by (simp add: trim_empty_iff toLowerCase_def isWhiteSpace_toLowerChar)


section \<open>validateAlgorithm: the allowlist check\<close>

lemma filter_nonblank_lower:
  "map toLowerCase xs = map toLowerCase ys \<Longrightarrow>
   map toLowerCase (filter (\<lambda>a. trim a \<noteq> []) xs) = map toLowerCase (filter (\<lambda>a. trim a \<noteq> []) ys)"
proof (induction xs arbitrary: ys)
  case Nil
  then show ?case by simp
next
  case (Cons x xs)
  then obtain y ys' where ys: "ys = y # ys'" by (cases ys) auto
  with Cons.prems have xy: "toLowerCase x = toLowerCase y" and rest: "map toLowerCase xs = map toLowerCase ys'"
    by simp_all
  have "trim x = [] \<longleftrightarrow> trim y = []"
    using xy trim_toLowerCase_empty by metis
  with Cons.IH [OF rest] xy ys show ?case by simp
qed

lemma validateAlgorithm_string:
  "validateAlgorithm (Some (JString alg)) allowed \<longleftrightarrow>
     trim alg \<noteq> [] \<and> toLowerCase alg \<noteq> ''none'' \<and>
     (\<exists>a \<in> set allowed. trim a \<noteq> [] \<and> toLowerCase a = toLowerCase alg)"
  by (auto simp: validateAlgorithm_def Let_def image_iff)

text \<open>
  Claim C1. For every algorithm string and every allowlist, \<open>validateAlgorithm\<close>
  returns false whenever the lowercased algorithm is \<open>none\<close>, also when the allowlist
  holds \<open>none\<close>; it accepts exactly the non-blank algorithms other than \<open>none\<close> whose
  lowercased form is the lowercased form of a non-blank allowlist entry, so the answer
  does not change when the algorithm or the entries change case; \<open>RS256\<close> against
  \<open>[RS256]\<close> passes and \<open>HS256\<close> against \<open>[RS256]\<close> fails.
\<close>

theorem validateAlgorithm_rejects_none_case_insensitive:
  "(toLowerCase alg = ''none'' \<longrightarrow> \<not> validateAlgorithm (Some (JString alg)) allowed)
   \<and> (validateAlgorithm (Some (JString alg)) allowed \<longleftrightarrow>
        trim alg \<noteq> [] \<and> toLowerCase alg \<noteq> ''none'' \<and>
        (\<exists>a \<in> set allowed. trim a \<noteq> [] \<and> toLowerCase a = toLowerCase alg))
   \<and> (toLowerCase alg = toLowerCase alg' \<and> map toLowerCase allowed = map toLowerCase allowed' \<longrightarrow>
        validateAlgorithm (Some (JString alg)) allowed = validateAlgorithm (Some (JString alg')) allowed')
   \<and> validateAlgorithm (Some (JString ''RS256'')) [''RS256'']
   \<and> \<not> validateAlgorithm (Some (JString ''HS256'')) [''RS256'']
   \<and> \<not> validateAlgorithm (Some (JString ''none'')) [''none'']"
proof -
  have none: "toLowerCase alg = ''none'' \<longrightarrow> \<not> validateAlgorithm (Some (JString alg)) allowed"
    by (simp add: validateAlgorithm_string)
  have ci: "toLowerCase alg = toLowerCase alg' \<and> map toLowerCase allowed = map toLowerCase allowed' \<longrightarrow>
        validateAlgorithm (Some (JString alg)) allowed = validateAlgorithm (Some (JString alg')) allowed'"
  proof
    assume h: "toLowerCase alg = toLowerCase alg' \<and> map toLowerCase allowed = map toLowerCase allowed'"
    then have "trim alg = [] \<longleftrightarrow> trim alg' = []"
      using trim_toLowerCase_empty by metis
    moreover have "map toLowerCase (filter (\<lambda>a. trim a \<noteq> []) allowed)
        = map toLowerCase (filter (\<lambda>a. trim a \<noteq> []) allowed')"
      using h filter_nonblank_lower by blast
    ultimately show "validateAlgorithm (Some (JString alg)) allowed = validateAlgorithm (Some (JString alg')) allowed'"
      using h by (simp add: validateAlgorithm_def Let_def)
  qed
  have rs: "validateAlgorithm (Some (JString ''RS256'')) [''RS256'']"
    by code_simp
  have hs: "\<not> validateAlgorithm (Some (JString ''HS256'')) [''RS256'']"
    by code_simp
  have nn: "\<not> validateAlgorithm (Some (JString ''none'')) [''none'']"
    by code_simp
  show ?thesis using none ci rs hs nn validateAlgorithm_string by blast
qed

text \<open>The theorem at \<open>NoNe\<close> against an allowlist of spellings of \<open>none\<close>, and at
  \<open>rs256\<close> against \<open>[Rs256]\<close>.\<close>

theorem validateAlgorithm_rejects_none_witness:
  "toLowerCase ''NoNe'' = ''none'' \<and> \<not> validateAlgorithm (Some (JString ''NoNe'')) [''none'', ''NONE'', ''NoNe'']
   \<and> toLowerCase ''rs256'' = toLowerCase ''RS256'' \<and> map toLowerCase [''Rs256''] = map toLowerCase [''RS256'']
   \<and> validateAlgorithm (Some (JString ''rs256'')) [''Rs256'']"
proof -
  have a: "toLowerCase ''NoNe'' = ''none''" by code_simp
  have b: "toLowerCase ''rs256'' = toLowerCase ''RS256''" by code_simp
  have c: "map toLowerCase [''Rs256''] = map toLowerCase [''RS256'']" by code_simp
  from validateAlgorithm_rejects_none_case_insensitive [of "''NoNe''" "[''none'', ''NONE'', ''NoNe'']" "''NoNe''" "[]"]
  have d: "\<not> validateAlgorithm (Some (JString ''NoNe'')) [''none'', ''NONE'', ''NoNe'']"
    using a by blast
  from validateAlgorithm_rejects_none_case_insensitive [of "''rs256''" "[''Rs256'']" "''RS256''" "[''RS256'']"]
  have e: "validateAlgorithm (Some (JString ''rs256'')) [''Rs256'']"
    using b c by blast
  show ?thesis using a b c d e by blast
qed

section \<open>extractBearerToken\<close>

lemma startsWith_Bearer: "startsWith v ''Bearer '' \<longleftrightarrow> (\<exists>t. v = ''Bearer '' @ t)"
proof
  assume "startsWith v ''Bearer ''"
  moreover have "length ''Bearer '' = (7::nat)" by simp
  ultimately have "take 7 v = ''Bearer ''" by (simp only: startsWith_def)
  then have "v = ''Bearer '' @ drop 7 v" using append_take_drop_id [of 7 v] by simp
  then show "\<exists>t. v = ''Bearer '' @ t" ..
next
  assume "\<exists>t. v = ''Bearer '' @ t"
  then show "startsWith v ''Bearer ''" by (auto simp: startsWith_def)
qed

lemma startsWith_not_blank: "startsWith v ''Bearer '' \<Longrightarrow> trim v \<noteq> []"
  by (auto simp: startsWith_Bearer trim_def isWhiteSpace_def)

lemma bearerOfValue_error:
  "(\<exists>e. bearerOfValue v = Inl e) \<longleftrightarrow> \<not> startsWith v ''Bearer '' \<or> v = ''Bearer ''"
  using startsWith_not_blank [of v]
  by (auto simp: bearerOfValue_def substring_def Let_def startsWith_Bearer)

lemma bearerOfValue_ok:
  "startsWith v ''Bearer '' \<Longrightarrow> v \<noteq> ''Bearer '' \<Longrightarrow> bearerOfValue v = Inr (drop 7 v)"
  using startsWith_not_blank [of v]
  by (auto simp: bearerOfValue_def substring_def Let_def startsWith_Bearer)

text \<open>
  Claim C10. \<open>extractBearerToken\<close> throws exactly on an absent or empty header, an
  empty array, an array of more than one element (with the message
  \<open>Multiple authorization headers not allowed\<close>), a value that does not start with
  \<open>Bearer \<close> (case-sensitive), and the value \<open>Bearer \<close> with an empty token; on every
  other input it returns the value with the seven characters \<open>Bearer \<close> stripped.
\<close>

theorem extractBearerToken_throws_exactly:
  "((\<exists>e. extractBearerToken h = Inl e) \<longleftrightarrow>
      h = Absent \<or> h = Single [] \<or> h = Multiple [] \<or> (\<exists>a b cs. h = Multiple (a # b # cs))
      \<or> (\<exists>v. (h = Single v \<or> h = Multiple [v]) \<and> (\<not> startsWith v ''Bearer '' \<or> v = ''Bearer '')))
   \<and> (\<forall>a b cs. h = Multiple (a # b # cs) \<longrightarrow>
         extractBearerToken h = Inl (Error ''Multiple authorization headers not allowed''))
   \<and> ((\<forall>e. extractBearerToken h \<noteq> Inl e) \<longrightarrow>
         (\<exists>v. (h = Single v \<or> h = Multiple [v]) \<and> v = ''Bearer '' @ drop 7 v
              \<and> extractBearerToken h = Inr (drop 7 v)))"
proof (cases h rule: extractBearerToken.cases)
  case 1
  then show ?thesis by simp
next
  case (2 v)
  have nb: "\<not> startsWith [] ''Bearer ''" by (simp add: startsWith_def)
  show ?thesis
  proof (cases "startsWith v ''Bearer '' \<and> v \<noteq> ''Bearer ''")
    case True
    then have ne: "v \<noteq> []" using nb by auto
    have "v = ''Bearer '' @ drop 7 v" using True by (auto simp: startsWith_Bearer)
    with True 2 ne bearerOfValue_ok [of v] show ?thesis by auto
  next
    case False
    then obtain e where "bearerOfValue v = Inl e" using bearerOfValue_error [of v] by auto
    with False 2 show ?thesis by auto
  qed
next
  case 3
  then show ?thesis by simp
next
  case (4 v)
  show ?thesis
  proof (cases "startsWith v ''Bearer '' \<and> v \<noteq> ''Bearer ''")
    case True
    have "v = ''Bearer '' @ drop 7 v" using True by (auto simp: startsWith_Bearer)
    with True 4 bearerOfValue_ok [of v] show ?thesis by auto
  next
    case False
    then obtain e where "bearerOfValue v = Inl e" using bearerOfValue_error [of v] by auto
    with False 4 show ?thesis by auto
  qed
next
  case (5 a b cs)
  then show ?thesis by simp
qed

text \<open>The theorem at scenario D of the specification, at a well-formed header and at
  a header of another scheme.\<close>

theorem extractBearerToken_witness:
  "extractBearerToken (Multiple [''Bearer a'', ''Bearer b''])
     = Inl (Error ''Multiple authorization headers not allowed'')
   \<and> (\<forall>e. extractBearerToken (Single ''Bearer abc.def.ghi'') \<noteq> Inl e)
   \<and> extractBearerToken (Single ''Bearer abc.def.ghi'') = Inr ''abc.def.ghi''
   \<and> (\<exists>e. extractBearerToken (Single ''Basic abc'') = Inl e)"
proof -
  have a: "extractBearerToken (Multiple [''Bearer a'', ''Bearer b''])
     = Inl (Error ''Multiple authorization headers not allowed'')"
    using extractBearerToken_throws_exactly [of "Multiple [''Bearer a'', ''Bearer b'']"] by blast
  have b: "extractBearerToken (Single ''Bearer abc.def.ghi'') = Inr ''abc.def.ghi''"
    by (simp add: bearerOfValue_def trim_def isWhiteSpace_def startsWith_def substring_def)
  have c: "\<exists>e. extractBearerToken (Single ''Basic abc'') = Inl e"
    using extractBearerToken_throws_exactly [of "Single ''Basic abc''"]
    by (simp add: startsWith_def)
  show ?thesis using a b c by simp
qed

section \<open>The cache: facts about the Map operations\<close>

lemma Map_get_set: "Map_get (Map_set m k v) k' = (if k' = k then Some v else Map_get m k')"
  by (induction m) (auto simp: Map_get_def)

lemma keys_Map_set:
  "map fst (Map_set m k v) = (if k \<in> fst ` set m then map fst m else map fst m @ [k])"
  by (induction m) auto

lemma set_keys_Map_set: "fst ` set (Map_set m k v) = insert k (fst ` set m)"
proof -
  have "set (map fst (Map_set m k v)) = insert k (set (map fst m))"
    unfolding keys_Map_set by auto
  then show ?thesis by simp
qed

lemma length_Map_set:
  "length (Map_set m k v) = (if k \<in> fst ` set m then length m else Suc (length m))"
  using arg_cong [OF keys_Map_set [of m k v], of length] by (simp split: if_splits)

lemma distinct_Map_set: "distinct (map fst m) \<Longrightarrow> distinct (map fst (Map_set m k v))"
  by (simp add: keys_Map_set)

lemma Map_get_None_iff: "Map_get m k = None \<longleftrightarrow> k \<notin> fst ` set m"
  by (simp add: Map_get_def map_of_eq_None_iff)

lemma Map_get_Some_mem: "Map_get m k = Some v \<Longrightarrow> (k, v) \<in> set m"
  by (simp add: Map_get_def map_of_SomeD)

lemma Map_get_delete:
  "Map_get (Map_delete m k) k' = (if k' = k then None else Map_get m k')"
  by (induction m) (auto simp: Map_get_def Map_delete_def)

lemma keys_Map_delete: "map fst (Map_delete m k) = filter (\<lambda>x. x \<noteq> k) (map fst m)"
  by (induction m) (auto simp: Map_delete_def)

lemma set_keys_Map_delete: "fst ` set (Map_delete m k) = fst ` set m - {k}"
proof -
  have "set (map fst (Map_delete m k)) = set (map fst m) - {k}"
    unfolding keys_Map_delete by auto
  then show ?thesis by simp
qed

lemma distinct_Map_delete: "distinct (map fst m) \<Longrightarrow> distinct (map fst (Map_delete m k))"
  by (simp add: keys_Map_delete)

lemma length_Map_delete_le: "length (Map_delete m k) \<le> length m"
  by (simp add: Map_delete_def)

lemma length_Map_delete:
  "distinct (map fst m) \<Longrightarrow> k \<in> fst ` set m \<Longrightarrow> Suc (length (Map_delete m k)) = length m"
proof (induction m)
  case Nil
  then show ?case by simp
next
  case (Cons p m)
  show ?case
  proof (cases "fst p = k")
    case True
    with Cons.prems have "k \<notin> fst ` set m" by auto
    then have "filter (\<lambda>p. fst p \<noteq> k) m = m" by (auto simp: filter_id_conv)
    with True show ?thesis by (simp add: Map_delete_def)
  next
    case False
    with Cons show ?thesis by (auto simp: Map_delete_def)
  qed
qed

lemma list_all_Map_set:
  "list_all P m \<Longrightarrow> P (k, v) \<Longrightarrow> list_all P (Map_set m k v)"
  by (induction m) auto

lemma list_all_Map_delete: "list_all P m \<Longrightarrow> list_all P (Map_delete m k)"
  by (simp add: Map_delete_def list_all_iff)

section \<open>The cache: well-formedness is an invariant\<close>

lemma wellFormed_key:
  "wellFormed c \<Longrightarrow> Map_get (cache c) k = Some node \<Longrightarrow> key node = k"
  by (auto simp: wellFormed_def list_all_iff dest!: Map_get_Some_mem)

lemma wellFormed_new: "LRUCache_new options = Inr c \<Longrightarrow> wellFormed c"
proof -
  assume a: "LRUCache_new options = Inr c"
  then obtain q where q: "optMaxSize options = Finite q" "q \<noteq> 0" "of_int \<lfloor>q\<rfloor> = q" "\<not> q \<le> 0"
    by (cases "optMaxSize options") (auto simp: LRUCache_new_def split: if_splits)
  then have "0 < \<lfloor>q\<rfloor>" by linarith
  with a q show ?thesis
    by (auto simp: LRUCache_new_def wellFormed_def split: if_splits)
qed

lemma wellFormed_remove:
  assumes "wellFormed c" and "Map_get (cache c) k = Some node"
  shows "wellFormed ((removeNode c (key node))\<lparr>cache := Map_delete (cache (removeNode c (key node))) k\<rparr>)"
proof -
  have kn: "key node = k" using assms by (rule wellFormed_key)
  have "set (remove1 k (order c)) = fst ` set (cache c) - {k}"
    using assms(1) by (simp add: wellFormed_def)
  moreover have "length (Map_delete (cache c) k) \<le> maxSize c"
    using assms(1) length_Map_delete_le [of "cache c" k] by (simp add: wellFormed_def)
  ultimately show ?thesis
    using assms(1) kn
    by (simp add: wellFormed_def removeNode_def set_keys_Map_delete distinct_Map_delete
        list_all_Map_delete)
qed

lemma wellFormed_touch:
  assumes "wellFormed c" and "Map_get (cache c) k = Some node"
  shows "wellFormed (moveToFront (c\<lparr>cache := Map_set (cache c) k (node\<lparr>lastAccessed := now\<rparr>)\<rparr>) (key node))"
proof -
  have kn: "key node = k" using assms by (rule wellFormed_key)
  have kin: "k \<in> fst ` set (cache c)"
    using assms(2) Map_get_None_iff [of "cache c" k] by auto
  then have "insert k (fst ` set (cache c)) = fst ` set (cache c)" by auto
  moreover have "insert k (set (order c) - {k}) = set (order c)"
    using kin assms(1) by (auto simp: wellFormed_def)
  ultimately show ?thesis
    using assms(1) kn kin
    by (simp add: wellFormed_def moveToFront_def addToFront_def removeNode_def
        set_keys_Map_set distinct_Map_set list_all_Map_set length_Map_set)
qed

lemma wellFormed_get: "wellFormed c \<Longrightarrow> wellFormed (fst (LRUCache_get c k now))"
  by (auto simp: LRUCache_get_def Let_def wellFormed_remove [unfolded Let_def] wellFormed_touch
      split: option.splits)

lemma wellFormed_has: "wellFormed c \<Longrightarrow> wellFormed (fst (LRUCache_has c k now))"
  by (auto simp: LRUCache_has_def Let_def wellFormed_remove [unfolded Let_def]
      split: option.splits)

lemma wellFormed_delete: "wellFormed c \<Longrightarrow> wellFormed (fst (LRUCache_delete c k))"
  by (auto simp: LRUCache_delete_def Let_def wellFormed_remove [unfolded Let_def]
      split: option.splits)

lemma wellFormed_clear: "wellFormed c \<Longrightarrow> wellFormed (LRUCache_clear c)"
  by (simp add: wellFormed_def LRUCache_clear_def)

lemma remove1_last: "distinct xs \<Longrightarrow> xs \<noteq> [] \<Longrightarrow> remove1 (last xs) xs = butlast xs"
  by (induction xs) auto

lemma length_order: "wellFormed c \<Longrightarrow> length (order c) = length (cache c)"
  using distinct_card [of "order c"] distinct_card [of "map fst (cache c)"]
  by (simp add: wellFormed_def)

text \<open>What \<open>set\<close> does to the recency list: the key comes first, the rest keeps its
  order, and the list is cut at the capacity.\<close>

lemma order_set:
  assumes "wellFormed c"
  shows "order (LRUCache_set c k v now) = take (maxSize c) (k # filter (\<lambda>x. x \<noteq> k) (order c))"
proof (cases "Map_get (cache c) k")
  case None
  then have knin: "k \<notin> fst ` set (cache c)" by (simp add: Map_get_None_iff)
  then have kno: "k \<notin> set (order c)" using assms by (simp add: wellFormed_def)
  then have f: "filter (\<lambda>x. x \<noteq> k) (order c) = order c" by (auto simp: filter_id_conv)
  have len: "length (order c) = length (cache c)"
    using assms distinct_card [of "order c"] distinct_card [of "map fst (cache c)"]
    by (simp add: wellFormed_def)
  show ?thesis
  proof (cases "length (cache c) < maxSize c")
    case True
    with None knin f len show ?thesis
      by (simp add: LRUCache_set_def Let_def addToFront_def Map_size_def length_Map_set)
  next
    case False
    then have full: "length (cache c) = maxSize c" using assms by (simp add: wellFormed_def)
    then have ne: "order c \<noteq> []" using assms len by (auto simp: wellFormed_def)
    have lk: "last (order c) \<noteq> k" using ne kno last_in_set by metis
    have "remove1 (last (order c)) (order c) = butlast (order c)"
      using assms ne by (simp add: wellFormed_def remove1_last)
    moreover have "butlast (order c) = take (maxSize c - 1) (order c)"
      using len full by (simp add: butlast_conv_take)
    ultimately show ?thesis
      using None knin f len full ne lk assms
      by (cases "maxSize c") 
         (auto simp: LRUCache_set_def Let_def addToFront_def Map_size_def length_Map_set
          evictLeastRecentlyUsed_def removeNode_def wellFormed_def)
  qed
next
  case (Some node)
  have kn: "key node = k" using assms Some by (rule wellFormed_key)
  have kin: "k \<in> set (order c)"
    using Some Map_get_None_iff [of "cache c" k] assms by (auto simp: wellFormed_def)
  have r: "remove1 k (order c) = filter (\<lambda>x. x \<noteq> k) (order c)"
    using assms by (simp add: wellFormed_def distinct_remove1_removeAll removeAll_filter_not_eq)
       (metis (mono_tags, lifting) filter_cong)
  have len: "length (order c) = length (cache c)"
    using assms distinct_card [of "order c"] distinct_card [of "map fst (cache c)"]
    by (simp add: wellFormed_def)
  have "length (k # remove1 k (order c)) = length (order c)"
    using kin length_pos_if_in_set [OF kin] by (simp add: length_remove1)
  then have "length (k # remove1 k (order c)) \<le> maxSize c"
    using len assms by (simp add: wellFormed_def)
  then have "take (maxSize c) (k # remove1 k (order c)) = k # remove1 k (order c)"
    by (rule take_all)
  with Some kn r show ?thesis
    by (simp add: LRUCache_set_def moveToFront_def addToFront_def removeNode_def)
qed

lemma set_existing:
  assumes "wellFormed c" and "Map_get (cache c) k = Some node"
  shows "LRUCache_set c k v now =
           moveToFront (c\<lparr>cache := Map_set (cache c) k (node\<lparr>lastAccessed := now\<rparr>)\<rparr>) k"
  using assms wellFormed_key [OF assms] by (simp add: LRUCache_set_def)

lemma set_new:
  assumes "wellFormed c" and "Map_get (cache c) k = None"
  shows "LRUCache_set c k v now =
           (let n = \<lparr> key = k, val = v, lastAccessed = now \<rparr> in
            if length (cache c) < maxSize c
            then c\<lparr>cache := Map_set (cache c) k n, order := k # order c\<rparr>
            else c\<lparr>cache := Map_delete (Map_set (cache c) k n) (last (order c)),
                   order := k # butlast (order c)\<rparr>)"
proof -
  have knin: "k \<notin> fst ` set (cache c)" using assms(2) by (simp add: Map_get_None_iff)
  show ?thesis
  proof (cases "length (cache c) < maxSize c")
    case True
    with assms knin show ?thesis
      by (simp add: LRUCache_set_def Let_def addToFront_def Map_size_def length_Map_set)
  next
    case False
    then have full: "length (cache c) = maxSize c" using assms by (simp add: wellFormed_def)
    then have ne: "order c \<noteq> []" using assms length_order [of c] by (auto simp: wellFormed_def)
    have kno: "k \<notin> set (order c)" using knin assms by (simp add: wellFormed_def)
    have lk: "last (order c) \<noteq> k" using ne kno last_in_set by metis
    have "remove1 (last (order c)) (order c) = butlast (order c)"
      using assms ne by (simp add: wellFormed_def remove1_last)
    with assms knin False full ne lk show ?thesis
      by (simp add: LRUCache_set_def Let_def addToFront_def Map_size_def length_Map_set
          evictLeastRecentlyUsed_def removeNode_def)
  qed
qed

lemma wellFormed_set:
  assumes "wellFormed c"
  shows "wellFormed (LRUCache_set c k v now)"
proof (cases "Map_get (cache c) k")
  case (Some node)
  then show ?thesis
    using wellFormed_touch [OF assms Some, of now] wellFormed_key [OF assms Some]
    by (simp add: LRUCache_set_def)
next
  case None
  have knin: "k \<notin> fst ` set (cache c)" using None by (simp add: Map_get_None_iff)
  have kno: "k \<notin> set (order c)" using knin assms by (simp add: wellFormed_def)
  let ?n = "\<lparr> key = k, val = v, lastAccessed = now \<rparr>"
  show ?thesis
  proof (cases "length (cache c) < maxSize c")
    case True
    with assms None knin show ?thesis
      by (simp add: set_new Let_def wellFormed_def set_keys_Map_set distinct_Map_set
          list_all_Map_set length_Map_set)
  next
    case False
    then have full: "length (cache c) = maxSize c" using assms by (simp add: wellFormed_def)
    then have ne: "order c \<noteq> []" using assms length_order [of c] by (auto simp: wellFormed_def)
    have lk: "last (order c) \<noteq> k" using ne kno last_in_set by metis
    have lin: "last (order c) \<in> fst ` set (Map_set (cache c) k ?n)"
      using ne assms last_in_set [OF ne] by (auto simp: set_keys_Map_set wellFormed_def)
    have d: "distinct (map fst (Map_set (cache c) k ?n))"
      using assms by (simp add: distinct_Map_set wellFormed_def)
    have len: "Suc (length (Map_delete (Map_set (cache c) k ?n) (last (order c)))) = Suc (length (cache c))"
      using length_Map_delete [OF d lin] knin by (simp add: length_Map_set)
    have "set (butlast (order c)) = set (order c) - {last (order c)}"
      using assms ne by (metis wellFormed_def remove1_last set_remove1_eq)
    then have "insert k (set (butlast (order c)))
        = insert k (fst ` set (cache c)) - {last (order c)}"
      using lk assms by (auto simp: wellFormed_def)
    moreover have "distinct (butlast (order c))"
      using assms by (simp add: wellFormed_def distinct_butlast)
    moreover have "k \<notin> set (butlast (order c))"
      using kno by (meson in_set_butlastD)
    ultimately show ?thesis
      using assms None False len d
      by (simp add: set_new Let_def wellFormed_def set_keys_Map_delete set_keys_Map_set
          distinct_Map_delete list_all_Map_delete list_all_Map_set)
  qed
qed

lemma wellFormed_call: "wellFormed c \<Longrightarrow> wellFormed (call c x)"
  by (cases x) (simp_all add: wellFormed_set wellFormed_get wellFormed_has wellFormed_delete
      wellFormed_clear)

lemma wellFormed_calls: "wellFormed c \<Longrightarrow> wellFormed (calls c xs)"
  unfolding calls_def by (induction xs arbitrary: c) (simp_all add: wellFormed_call)

lemma maxSize_set [simp]: "maxSize (LRUCache_set c k v now) = maxSize c"
  by (simp add: LRUCache_set_def Let_def moveToFront_def addToFront_def removeNode_def
      evictLeastRecentlyUsed_def split: option.splits)

lemma ttl_set [simp]: "ttl (LRUCache_set c k v now) = ttl c"
  by (simp add: LRUCache_set_def Let_def moveToFront_def addToFront_def removeNode_def
      evictLeastRecentlyUsed_def split: option.splits)

lemma maxSize_call [simp]: "maxSize (call c x) = maxSize c"
  by (cases x) (simp_all add: LRUCache_get_def LRUCache_has_def LRUCache_delete_def
      LRUCache_clear_def Let_def moveToFront_def addToFront_def removeNode_def
      split: option.splits)

lemma ttl_call [simp]: "ttl (call c x) = ttl c"
  by (cases x) (simp_all add: LRUCache_get_def LRUCache_has_def LRUCache_delete_def
      LRUCache_clear_def Let_def moveToFront_def addToFront_def removeNode_def
      split: option.splits)

lemma maxSize_calls [simp]: "maxSize (calls c xs) = maxSize c"
  unfolding calls_def by (induction xs arbitrary: c) simp_all

lemma ttl_calls [simp]: "ttl (calls c xs) = ttl c"
  unfolding calls_def by (induction xs arbitrary: c) simp_all

lemma size_le_maxSize: "wellFormed c \<Longrightarrow> LRUCache_size c \<le> maxSize c"
  by (simp add: wellFormed_def LRUCache_size_def Map_size_def)

section \<open>The cache: a run of insertions\<close>

lemma take_filter_take:
  "distinct L \<Longrightarrow> take n (filter (\<lambda>x. x \<noteq> k) (take (Suc n) L)) = take n (filter (\<lambda>x. x \<noteq> k) L)"
proof (induction L arbitrary: n)
  case Nil
  then show ?case by simp
next
  case (Cons x L)
  show ?case
  proof (cases "x = k")
    case True
    with Cons.prems have "k \<notin> set L" by simp
    then have "filter (\<lambda>x. x \<noteq> k) L = L" by (auto simp: filter_id_conv)
    moreover have "filter (\<lambda>x. x \<noteq> k) (take n L) = take n L"
      using \<open>k \<notin> set L\<close> by (auto simp: filter_id_conv dest: in_set_takeD)
    ultimately show ?thesis using True by simp
  next
    case False
    show ?thesis
    proof (cases n)
      case 0
      then show ?thesis by simp
    next
      case (Suc n')
      with Cons False show ?thesis by simp
    qed
  qed
qed

lemma take_cons_filter_take:
  "distinct L \<Longrightarrow>
   take m (k # filter (\<lambda>x. x \<noteq> k) (take m L)) = take m (k # filter (\<lambda>x. x \<noteq> k) L)"
  by (cases m) (simp_all add: take_filter_take)

lemma calls_snoc: "calls c (xs @ [x]) = call (calls c xs) x"
  by (simp add: calls_def)

lemma distinct_rev_filter:
  "distinct ks \<Longrightarrow> distinct os \<Longrightarrow> distinct (rev ks @ filter (\<lambda>x. x \<notin> set ks) os)"
  by auto

lemma order_setCalls:
  assumes "wellFormed c"
  shows "distinct (map fst kvs) \<Longrightarrow>
     order (calls c (setCalls kvs))
       = take (maxSize c) (rev (map fst kvs) @ filter (\<lambda>x. x \<notin> set (map fst kvs)) (order c))"
proof (induction kvs rule: rev_induct)
  case Nil
  have "length (order c) \<le> maxSize c"
    using assms length_order [of c] by (simp add: wellFormed_def)
  then show ?case by (simp add: calls_def setCalls_def)
next
  case (snoc kv kvs)
  obtain k v now where kv: "kv = (k, v, now)" by (cases kv) auto
  let ?ks = "map fst kvs"
  let ?L = "rev ?ks @ filter (\<lambda>x. x \<notin> set ?ks) (order c)"
  have d: "distinct ?ks" and knew: "k \<notin> set ?ks" using snoc.prems kv by auto
  have IH: "order (calls c (setCalls kvs)) = take (maxSize c) ?L" using snoc.IH d by simp
  have wf: "wellFormed (calls c (setCalls kvs))" using assms by (rule wellFormed_calls)
  have dL: "distinct ?L" using d assms by (auto simp: wellFormed_def)
  have "order (calls c (setCalls (kvs @ [kv])))
      = order (LRUCache_set (calls c (setCalls kvs)) k v now)"
    by (simp add: setCalls_def calls_snoc kv)
  also have "\<dots> = take (maxSize c) (k # filter (\<lambda>x. x \<noteq> k) (take (maxSize c) ?L))"
    using order_set [OF wf] IH by simp
  also have "\<dots> = take (maxSize c) (k # filter (\<lambda>x. x \<noteq> k) ?L)"
    using dL by (rule take_cons_filter_take)
  also have "filter (\<lambda>x. x \<noteq> k) ?L = rev ?ks @ filter (\<lambda>x. x \<notin> set (map fst (kvs @ [kv]))) (order c)"
  proof -
    have "filter (\<lambda>x. x \<noteq> k) (rev ?ks) = rev ?ks"
      using knew by (auto simp: filter_id_conv)
    moreover have "(\<lambda>x. x \<notin> set ?ks \<and> x \<noteq> k) = (\<lambda>x. x \<notin> set (map fst (kvs @ [kv])))"
      using kv by auto
    ultimately show ?thesis by (simp add: conj_commute)
  qed
  finally show ?case by (simp add: kv)
qed

lemma keys_cache: "wellFormed c \<Longrightarrow> fst ` set (cache c) = set (order c)"
  by (simp add: wellFormed_def)

lemma insert_over_capacity:
  assumes "wellFormed c" and "distinct (map fst kvs)" and "length kvs = maxSize c + n"
  shows "order (calls c (setCalls kvs)) = rev (drop n (map fst kvs))"
    and "LRUCache_size (calls c (setCalls kvs)) = maxSize c"
    and "fst ` set (cache (calls c (setCalls kvs))) = set (drop n (map fst kvs))"
proof -
  have "take (maxSize c) (rev (map fst kvs)) = rev (drop n (map fst kvs))"
    using assms(3) by (simp add: take_rev)
  then show o: "order (calls c (setCalls kvs)) = rev (drop n (map fst kvs))"
    using order_setCalls [OF assms(1,2)] assms(3) by simp
  have wf: "wellFormed (calls c (setCalls kvs))" using assms(1) by (rule wellFormed_calls)
  show "LRUCache_size (calls c (setCalls kvs)) = maxSize c"
    using length_order [OF wf] o assms(3) by (simp add: LRUCache_size_def Map_size_def)
  show "fst ` set (cache (calls c (setCalls kvs))) = set (drop n (map fst kvs))"
    using keys_cache [OF wf] o by simp
qed

section \<open>The cache: construction\<close>

lemma positiveInteger_iff: "positiveInteger x \<longleftrightarrow> (\<exists>n::int. 0 < n \<and> x = Finite (of_int n))"
proof
  assume "positiveInteger x"
  then obtain q where q: "x = Finite q" "of_int \<lfloor>q\<rfloor> = q" "0 < q"
    by (cases x) (auto simp: positiveInteger_def)
  then have "0 < \<lfloor>q\<rfloor>" by linarith
  with q show "\<exists>n::int. 0 < n \<and> x = Finite (of_int n)" by metis
next
  assume "\<exists>n::int. 0 < n \<and> x = Finite (of_int n)"
  then show "positiveInteger x" by (auto simp: positiveInteger_def)
qed

lemma positiveInteger_checks:
  "positiveInteger x \<longleftrightarrow> truthy x \<and> isInteger x \<and> \<not> lessEqZero x"
  by (cases x) (auto simp: positiveInteger_def)

lemma new_error_iff:
  "(\<exists>e. LRUCache_new options = Inl e) \<longleftrightarrow>
     \<not> positiveInteger (optMaxSize options)
     \<or> (\<exists>t. optTtl options = Some t \<and> t \<noteq> Finite 0 \<and> t \<noteq> NaN \<and> \<not> positiveInteger t)"
proof -
  have t: "\<And>t. truthy t \<longleftrightarrow> t \<noteq> Finite 0 \<and> t \<noteq> NaN"
    subgoal for t by (cases t) auto
    done
  show ?thesis
    by (cases "optTtl options")
       (auto simp: LRUCache_new_def positiveInteger_checks t)
qed

lemma new_fields:
  "LRUCache_new options = Inr c \<Longrightarrow>
     cache c = [] \<and> order c = [] \<and> ttl c = optTtl options
     \<and> optMaxSize options = Finite (of_nat (maxSize c)) \<and> 0 < maxSize c"
proof -
  assume a: "LRUCache_new options = Inr c"
  then obtain q where q: "optMaxSize options = Finite q" "q \<noteq> 0" "of_int \<lfloor>q\<rfloor> = q" "\<not> q \<le> 0"
    by (cases "optMaxSize options") (auto simp: LRUCache_new_def split: if_splits)
  then have p: "0 < \<lfloor>q\<rfloor>" by linarith
  then have "of_nat (nat \<lfloor>q\<rfloor>) = q" using q(3) by (metis of_nat_nat less_imp_le of_int_of_nat_eq)
  with a q p show ?thesis
    by (auto simp: LRUCache_new_def split: if_splits)
qed

lemma get_result:
  "snd (LRUCache_get c k now) =
     (case Map_get (cache c) k of
        None \<Rightarrow> None
      | Some node \<Rightarrow> if ttlExpired (ttl c) now (lastAccessed node) then None else Some (val node))"
  by (simp add: LRUCache_get_def Let_def split: option.splits)

text \<open>
  Claim C9, as amended. Construction throws exactly when \<open>maxSize\<close> is not a positive
  integer, or when \<open>ttl\<close> is supplied, is neither \<open>0\<close> nor \<open>NaN\<close>, and is not a
  positive integer. With \<open>ttl\<close> left unset (and likewise with \<open>ttl\<close> \<open>0\<close> or \<open>NaN\<close>,
  which the constructor accepts) construction succeeds for a positive integer
  \<open>maxSize\<close>, and no entry ever expires by time: \<open>get\<close> misses only on keys the cache
  does not hold.
\<close>

theorem LRUCache_new_fails_exactly:
  "((\<exists>e. LRUCache_new options = Inl e) \<longleftrightarrow>
      \<not> positiveInteger (optMaxSize options)
      \<or> (\<exists>t. optTtl options = Some t \<and> t \<noteq> Finite 0 \<and> t \<noteq> NaN \<and> \<not> positiveInteger t))
   \<and> (\<forall>e. LRUCache_new options = Inl e \<longrightarrow>
         e = Error ''maxSize must be a positive integer''
         \<or> e = Error ''ttl must be a positive integer (if specified)'')
   \<and> (\<forall>c. LRUCache_new options = Inr c
           \<and> (optTtl options = None \<or> optTtl options = Some (Finite 0) \<or> optTtl options = Some NaN) \<longrightarrow>
         (\<forall>now accessed. \<not> ttlExpired (ttl c) now accessed)
         \<and> (\<forall>xs k now. snd (LRUCache_get (calls c xs) k now)
                = map_option val (Map_get (cache (calls c xs)) k)))"
proof -
  have a: "\<forall>e. LRUCache_new options = Inl e \<longrightarrow>
         e = Error ''maxSize must be a positive integer''
         \<or> e = Error ''ttl must be a positive integer (if specified)''"
    by (auto simp: LRUCache_new_def split: if_splits)
  have b: "\<forall>c. LRUCache_new options = Inr c
           \<and> (optTtl options = None \<or> optTtl options = Some (Finite 0) \<or> optTtl options = Some NaN) \<longrightarrow>
         (\<forall>now accessed. \<not> ttlExpired (ttl c) now accessed)
         \<and> (\<forall>xs k now. snd (LRUCache_get (calls c xs) k now)
                = map_option val (Map_get (cache (calls c xs)) k))"
  proof (intro allI impI)
    fix c
    assume h: "LRUCache_new options = Inr c
           \<and> (optTtl options = None \<or> optTtl options = Some (Finite 0) \<or> optTtl options = Some NaN)"
    then have "ttl c = None \<or> ttl c = Some (Finite 0) \<or> ttl c = Some NaN"
      using new_fields [of options c] by auto
    then have ne: "\<And>now accessed. \<not> ttlExpired (ttl c) now accessed"
      by (auto simp: ttlExpired_def)
    then show "(\<forall>now accessed. \<not> ttlExpired (ttl c) now accessed)
         \<and> (\<forall>xs k now. snd (LRUCache_get (calls c xs) k now)
                = map_option val (Map_get (cache (calls c xs)) k))"
      by (simp add: get_result split: option.splits)
  qed
  show ?thesis using new_error_iff [of options] a b by blast
qed

text \<open>
  Claim C9 as stated fails at \<open>{ maxSize: 10, ttl: 0 }\<close>: a \<open>ttl\<close> is supplied and is
  not a positive integer, yet the constructor returns a cache (the repository's test
  "should throw error for invalid TTL" expects exactly this).
\<close>

theorem LRUCache_new_zero_ttl_counterexample:
  "\<not> positiveInteger (Finite 0)
   \<and> LRUCache_new \<lparr> optMaxSize = Finite 10, optTtl = Some (Finite 0) \<rparr>
       = Inr \<lparr> cache = [], order = [], maxSize = 10, ttl = Some (Finite 0) \<rparr>"
  by (simp add: LRUCache_new_def positiveInteger_def)

text \<open>The amended theorem at \<open>maxSize: 1.5\<close>, at \<open>ttl: -1000\<close>, and at a cache without
  \<open>ttl\<close> read a long time after the write.\<close>

theorem LRUCache_new_witness:
  "(\<exists>e. LRUCache_new \<lparr> optMaxSize = Finite (3 / 2), optTtl = None \<rparr> = Inl e)
   \<and> (\<exists>e. LRUCache_new \<lparr> optMaxSize = Finite 10, optTtl = Some (Finite (- 1000)) \<rparr> = Inl e)
   \<and> LRUCache_new \<lparr> optMaxSize = Finite 10, optTtl = None \<rparr>
       = Inr \<lparr> cache = [], order = [], maxSize = 10, ttl = None \<rparr>
   \<and> snd (LRUCache_get (calls \<lparr> cache = [], order = [], maxSize = 10, ttl = None \<rparr>
            [CallSet ''kid'' ''pem'' 0]) ''kid'' 1000000) = Some ''pem''"
proof -
  have n: "LRUCache_new \<lparr> optMaxSize = Finite 10, optTtl = None \<rparr>
       = Inr \<lparr> cache = [], order = [], maxSize = 10, ttl = None \<rparr>"
    by (simp add: LRUCache_new_def)
  have f: "\<lfloor>3 / 2 :: rat\<rfloor> = 1" by (simp add: floor_eq_iff)
  have a: "\<exists>e. LRUCache_new \<lparr> optMaxSize = Finite (3 / 2), optTtl = None \<rparr> = Inl e"
    using LRUCache_new_fails_exactly [of "\<lparr> optMaxSize = Finite (3 / 2), optTtl = None \<rparr>"] f
    by (simp add: positiveInteger_def)
  have b: "\<exists>e. LRUCache_new \<lparr> optMaxSize = Finite 10, optTtl = Some (Finite (- 1000)) \<rparr> = Inl e"
    using LRUCache_new_fails_exactly [of "\<lparr> optMaxSize = Finite 10, optTtl = Some (Finite (- 1000)) \<rparr>"]
    by (simp add: positiveInteger_def)
  have c: "snd (LRUCache_get (calls \<lparr> cache = [], order = [], maxSize = 10, ttl = None \<rparr>
            [CallSet ''kid'' ''pem'' 0]) ''kid'' 1000000)
        = map_option val (Map_get (cache (calls \<lparr> cache = [], order = [], maxSize = 10, ttl = None \<rparr>
            [CallSet ''kid'' ''pem'' 0])) ''kid'')"
    using LRUCache_new_fails_exactly [of "\<lparr> optMaxSize = Finite 10, optTtl = None \<rparr>"] n
    by simp
  have d: "map_option val (Map_get (cache (calls \<lparr> cache = [], order = [], maxSize = 10, ttl = None \<rparr>
            [CallSet ''kid'' ''pem'' 0])) ''kid'') = Some ''pem''"
    by (simp add: calls_def LRUCache_set_def Map_get_def Map_size_def addToFront_def Let_def)
  show ?thesis using a b n c d by simp
qed

section \<open>The cache: capacity and eviction order\<close>

lemma evict_step:
  assumes "wellFormed c" and "LRUCache_size c = maxSize c" and "Map_get (cache c) k = None"
  shows "order (LRUCache_set c k v now) = k # butlast (order c)"
    and "fst ` set (cache (LRUCache_set c k v now))
           = insert k (fst ` set (cache c)) - {last (order c)}"
    and "last (order c) \<in> fst ` set (cache c)"
proof -
  have full: "\<not> length (cache c) < maxSize c"
    using assms(2) by (simp add: LRUCache_size_def Map_size_def)
  show "order (LRUCache_set c k v now) = k # butlast (order c)"
    using assms(1,3) full by (simp add: set_new Let_def)
  show "fst ` set (cache (LRUCache_set c k v now))
           = insert k (fst ` set (cache c)) - {last (order c)}"
    using assms(1,3) full by (simp add: set_new Let_def set_keys_Map_delete set_keys_Map_set)
  have "order c \<noteq> []"
    using assms(1,2) length_order [of c] by (auto simp: wellFormed_def LRUCache_size_def Map_size_def)
  then show "last (order c) \<in> fst ` set (cache c)"
    using assms(1) last_in_set by (auto simp: wellFormed_def)
qed

text \<open>Evaluation of a run of calls on a concrete cache.\<close>

lemma calls_Cons: "calls c (x # xs) = calls (call c x) xs"
  by (simp add: calls_def)

lemma calls_Nil: "calls c [] = c"
  by (simp add: calls_def)

lemmas cache_eval =
  calls_Cons calls_Nil call.simps setCalls_def LRUCache_set_def LRUCache_get_def
  LRUCache_has_def LRUCache_delete_def LRUCache_clear_def LRUCache_size_def
  Map_get_def Map_set.simps Map_delete_def Map_size_def moveToFront_def addToFront_def
  removeNode_def evictLeastRecentlyUsed_def ttlExpired_def Let_def

section \<open>The second cache class: overwrite, and expiry from creation\<close>

lemma ttl_set_v2 [simp]: "ttl_v2 (LRUCache_set_v2 c k v now) = ttl_v2 c"
  by (simp add: LRUCache_set_v2_def evictLeastRecentlyUsed_v2_def Let_def split: option.splits)

lemma ttl_get_v2 [simp]: "ttl_v2 (fst (LRUCache_get_v2 c k now)) = ttl_v2 c"
  by (simp add: LRUCache_get_v2_def split: option.splits)

lemma set_v2_present:
  assumes "Map_get (cache_v2 c) k = Some entry"
  shows "Map_get (cache_v2 (LRUCache_set_v2 c k v now)) k
           = Some \<lparr> value_v2 = v, lastAccessed_v2 = now, created = now \<rparr>"
  using assms by (simp add: LRUCache_set_v2_def Map_get_set)

lemma set_v2_entry:
  "Map_get (cache_v2 (LRUCache_set_v2 c k v now)) k = None
   \<or> Map_get (cache_v2 (LRUCache_set_v2 c k v now)) k
       = Some \<lparr> value_v2 = v, lastAccessed_v2 = now, created = now \<rparr>"
  by (simp add: LRUCache_set_v2_def evictLeastRecentlyUsed_v2_def Let_def Map_get_set
      Map_get_delete split: option.splits)

lemma get_v2_result:
  assumes "Map_get (cache_v2 c) k = Some entry"
  shows "snd (LRUCache_get_v2 c k now)
           = (if ttlExpired (ttl_v2 c) now (created entry) then None else Some (value_v2 entry))"
  using assms by (simp add: LRUCache_get_v2_def)

lemma set_set_get_v2:
  assumes "Map_get (cache_v2 (LRUCache_set_v2 c k v1 t1)) k \<noteq> None"
  shows "Map_get (cache_v2 (LRUCache_set_v2 (LRUCache_set_v2 c k v1 t1) k v2 t2)) k
           = Some \<lparr> value_v2 = v2, lastAccessed_v2 = t2, created = t2 \<rparr>"
    and "snd (LRUCache_get_v2 (LRUCache_set_v2 (LRUCache_set_v2 c k v1 t1) k v2 t2) k t3)
           = (if ttlExpired (ttl_v2 c) t3 t2 then None else Some v2)"
proof -
  from assms obtain entry where "Map_get (cache_v2 (LRUCache_set_v2 c k v1 t1)) k = Some entry"
    by auto
  from set_v2_present [OF this, of v2 t2]
  show e: "Map_get (cache_v2 (LRUCache_set_v2 (LRUCache_set_v2 c k v1 t1) k v2 t2)) k
           = Some \<lparr> value_v2 = v2, lastAccessed_v2 = t2, created = t2 \<rparr>" .
  then show "snd (LRUCache_get_v2 (LRUCache_set_v2 (LRUCache_set_v2 c k v1 t1) k v2 t2) k t3)
           = (if ttlExpired (ttl_v2 c) t3 t2 then None else Some v2)"
    by (simp add: get_v2_result)
qed

lemma set_v2_new_cache:
  assumes "\<not> lessNumber (optMaxSize options) (Finite 1)"
  shows "Map_get (cache_v2 (LRUCache_set_v2 (LRUCache_new_v2 options) k v now)) k
           = Some \<lparr> value_v2 = v, lastAccessed_v2 = now, created = now \<rparr>"
  using assms by (simp add: LRUCache_set_v2_def LRUCache_new_v2_def Map_get_def Map_size_def)

lemma get_v2_absent: "Map_get (cache_v2 c) k = None \<Longrightarrow> LRUCache_get_v2 c k now = (c, None)"
  by (simp add: LRUCache_get_v2_def)

lemma getsAt_v2_absent: "Map_get (cache_v2 c) k = None \<Longrightarrow> getsAt_v2 c k ts = map (\<lambda>_. None) ts"
  by (induction ts) (simp_all add: get_v2_absent)

lemma getsAt_v2_from_created:
  assumes "ttl_v2 c = Some (Finite (of_int d))" and "0 < d"
    and "Map_get (cache_v2 c) k = Some entry" and "sorted ts"
  shows "getsAt_v2 c k ts
           = map (\<lambda>now. if d < now - created entry then None else Some (value_v2 entry)) ts"
  using assms
proof (induction ts arbitrary: c entry)
  case Nil
  show ?case by simp
next
  case (Cons now ts)
  have x: "ttlExpired (ttl_v2 c) now (created entry) \<longleftrightarrow> d < now - created entry"
    using Cons.prems(1,2) by (simp add: ttlExpired_def flip: of_int_diff)
  show ?case
  proof (cases "d < now - created entry")
    case True
    let ?c = "fst (LRUCache_get_v2 c k now)"
    have g: "LRUCache_get_v2 c k now = (c\<lparr>cache_v2 := Map_delete (cache_v2 c) k\<rparr>, None)"
      using Cons.prems(3) True x by (simp add: LRUCache_get_v2_def)
    then have "Map_get (cache_v2 ?c) k = None" by (simp add: Map_get_delete)
    then have r: "getsAt_v2 ?c k ts = map (\<lambda>_. None) ts" by (rule getsAt_v2_absent)
    have "\<forall>t \<in> set ts. d < t - created entry" using Cons.prems(4) True by auto
    then have "map (\<lambda>now. if d < now - created entry then None else Some (value_v2 entry)) ts
               = map (\<lambda>_. None) ts" by simp
    with r g True show ?thesis by simp
  next
    case False
    let ?c = "fst (LRUCache_get_v2 c k now)"
    have g: "LRUCache_get_v2 c k now
        = (c\<lparr>cache_v2 := Map_set (cache_v2 c) k (entry\<lparr>lastAccessed_v2 := now\<rparr>)\<rparr>,
           Some (value_v2 entry))"
      using Cons.prems(3) False x by (simp add: LRUCache_get_v2_def)
    then have m: "Map_get (cache_v2 ?c) k = Some (entry\<lparr>lastAccessed_v2 := now\<rparr>)"
      by (simp add: Map_get_set)
    have t: "ttl_v2 ?c = Some (Finite (of_int d))" using Cons.prems(1) by simp
    have s: "sorted ts" using Cons.prems(4) by simp
    from Cons.IH [OF t Cons.prems(2) m s] g False show ?thesis by simp
  qed
qed

lemma get_has_v2:
  assumes "ttl_v2 c = Some (Finite (of_int d))" and "0 < d"
    and "Map_get (cache_v2 c) k = Some entry"
  shows "d < now - created entry \<longrightarrow>
           LRUCache_get_v2 c k now = (c\<lparr>cache_v2 := Map_delete (cache_v2 c) k\<rparr>, None)
         \<and> LRUCache_has_v2 c k now = (c\<lparr>cache_v2 := Map_delete (cache_v2 c) k\<rparr>, False)
         \<and> Map_get (Map_delete (cache_v2 c) k) k = None"
    and "now - created entry \<le> d \<longrightarrow>
           LRUCache_get_v2 c k now
             = (c\<lparr>cache_v2 := Map_set (cache_v2 c) k (entry\<lparr>lastAccessed_v2 := now\<rparr>)\<rparr>,
                Some (value_v2 entry))
         \<and> LRUCache_has_v2 c k now = (c, True)"
proof -
  have x: "ttlExpired (ttl_v2 c) now (created entry) \<longleftrightarrow> d < now - created entry"
    using assms(1,2) by (simp add: ttlExpired_def flip: of_int_diff)
  show "d < now - created entry \<longrightarrow>
           LRUCache_get_v2 c k now = (c\<lparr>cache_v2 := Map_delete (cache_v2 c) k\<rparr>, None)
         \<and> LRUCache_has_v2 c k now = (c\<lparr>cache_v2 := Map_delete (cache_v2 c) k\<rparr>, False)
         \<and> Map_get (Map_delete (cache_v2 c) k) k = None"
    using assms(3) x by (simp add: LRUCache_get_v2_def LRUCache_has_v2_def Map_get_delete)
  show "now - created entry \<le> d \<longrightarrow>
           LRUCache_get_v2 c k now
             = (c\<lparr>cache_v2 := Map_set (cache_v2 c) k (entry\<lparr>lastAccessed_v2 := now\<rparr>)\<rparr>,
                Some (value_v2 entry))
         \<and> LRUCache_has_v2 c k now = (c, True)"
    using assms(3) x by (simp add: LRUCache_get_v2_def LRUCache_has_v2_def)
qed

lemmas cache_v2_eval =
  LRUCache_new_v2_def LRUCache_set_v2_def LRUCache_get_v2_def LRUCache_has_v2_def
  evictLeastRecentlyUsed_v2_def Map_get_def Map_set.simps Map_delete_def Map_size_def
  ttlExpired_def Let_def

section \<open>The cache: a repeated set does not overwrite\<close>

lemma node_after_set:
  assumes "wellFormed c"
  shows "Map_get (cache (LRUCache_set c k v now)) k
           = Some \<lparr> key = k, val = (case Map_get (cache c) k of None \<Rightarrow> v | Some n \<Rightarrow> val n),
                    lastAccessed = now \<rparr>"
proof (cases "Map_get (cache c) k")
  case (Some node)
  have "key node = k" using assms Some by (rule wellFormed_key)
  then have "node\<lparr>lastAccessed := now\<rparr> = \<lparr> key = k, val = val node, lastAccessed = now \<rparr>"
    by (cases node) simp
  with Some assms show ?thesis
    by (simp add: set_existing moveToFront_def addToFront_def removeNode_def Map_get_set)
next
  case None
  have knin: "k \<notin> fst ` set (cache c)" using None by (simp add: Map_get_None_iff)
  show ?thesis
  proof (cases "length (cache c) < maxSize c")
    case True
    with None assms show ?thesis by (simp add: set_new Let_def Map_get_set)
  next
    case False
    then have full: "length (cache c) = maxSize c" using assms by (simp add: wellFormed_def)
    then have ne: "order c \<noteq> []" using assms length_order [of c] by (auto simp: wellFormed_def)
    have kno: "k \<notin> set (order c)" using knin assms by (simp add: wellFormed_def)
    have lk: "last (order c) \<noteq> k" using ne kno last_in_set by metis
    with None assms False show ?thesis
      by (simp add: set_new Let_def Map_get_set Map_get_delete)
  qed
qed

lemma hd_order_after_set: "wellFormed c \<Longrightarrow> hd (order (LRUCache_set c k v now)) = k"
  by (cases "maxSize c") (simp_all add: order_set wellFormed_def)

text \<open>
  Claim C3, as amended. In the first class, let \<open>c\<close> be a state reached from a
  constructor call. After \<open>set(k, v1)\<close> and \<open>set(k, v2)\<close> the entry of \<open>k\<close> holds \<open>v1\<close>
  when \<open>c\<close> did not hold \<open>k\<close>, and the value \<open>c\<close> held for \<open>k\<close> otherwise; the second
  \<open>set\<close> leaves the value alone, sets \<open>lastAccessed\<close> to its clock reading and moves \<open>k\<close>
  to the front; a following \<open>get(k)\<close> returns that value, unless the \<open>ttl\<close> has run out
  since the second \<open>set\<close>, when it returns \<open>undefined\<close>. In the second class a \<open>set\<close> on
  a key the cache holds overwrites: in any state \<open>c'\<close> in which the first \<open>set\<close> leaves
  \<open>k\<close> in the cache, and so on every new cache whose \<open>maxSize\<close> is not below 1, the
  entry holds \<open>v2\<close> after the second \<open>set\<close>, with both timestamps at its clock reading,
  and \<open>get(k)\<close> returns \<open>v2\<close> unless the \<open>ttl\<close> has run out since.
\<close>

theorem repeated_set_keeps_stored_value:
  assumes "LRUCache_new options = Inr c0" and "c = calls c0 xs"
    and "c2 = LRUCache_set (LRUCache_set c k v1 t1) k v2 t2"
  shows "(Map_get (cache c) k = None \<longrightarrow>
            Map_get (cache c2) k = Some \<lparr> key = k, val = v1, lastAccessed = t2 \<rparr>
            \<and> snd (LRUCache_get c2 k t3) = (if ttlExpired (ttl c0) t3 t2 then None else Some v1))
       \<and> (\<forall>n. Map_get (cache c) k = Some n \<longrightarrow>
            Map_get (cache c2) k = Some \<lparr> key = k, val = val n, lastAccessed = t2 \<rparr>
            \<and> snd (LRUCache_get c2 k t3) = (if ttlExpired (ttl c0) t3 t2 then None else Some (val n)))
       \<and> hd (order c2) = k
       \<and> (Map_get (cache_v2 (LRUCache_set_v2 c' k v1 t1)) k \<noteq> None \<longrightarrow>
            Map_get (cache_v2 (LRUCache_set_v2 (LRUCache_set_v2 c' k v1 t1) k v2 t2)) k
              = Some \<lparr> value_v2 = v2, lastAccessed_v2 = t2, created = t2 \<rparr>
            \<and> snd (LRUCache_get_v2 (LRUCache_set_v2 (LRUCache_set_v2 c' k v1 t1) k v2 t2) k t3)
                = (if ttlExpired (ttl_v2 c') t3 t2 then None else Some v2))
       \<and> (\<not> lessNumber (optMaxSize options') (Finite 1) \<longrightarrow>
            snd (LRUCache_get_v2
                   (LRUCache_set_v2 (LRUCache_set_v2 (LRUCache_new_v2 options') k v1 t1) k v2 t2)
                   k t3)
              = (if ttlExpired (optTtl options') t3 t2 then None else Some v2))"
proof -
  have wf0: "wellFormed c0" using assms(1) by (rule wellFormed_new)
  then have wf: "wellFormed c" unfolding assms(2) by (rule wellFormed_calls)
  then have wf1: "wellFormed (LRUCache_set c k v1 t1)" by (rule wellFormed_set)
  have t: "ttl c2 = ttl c0" by (simp add: assms(2,3))
  have n1: "Map_get (cache (LRUCache_set c k v1 t1)) k
      = Some \<lparr> key = k, val = (case Map_get (cache c) k of None \<Rightarrow> v1 | Some n \<Rightarrow> val n),
               lastAccessed = t1 \<rparr>"
    using wf by (rule node_after_set)
  have n2: "Map_get (cache c2) k
      = Some \<lparr> key = k, val = (case Map_get (cache c) k of None \<Rightarrow> v1 | Some n \<Rightarrow> val n),
               lastAccessed = t2 \<rparr>"
    unfolding assms(3) using node_after_set [OF wf1, of k v2 t2] n1 by simp
  have g: "snd (LRUCache_get c2 k t3)
      = (if ttlExpired (ttl c0) t3 t2 then None
         else Some (case Map_get (cache c) k of None \<Rightarrow> v1 | Some n \<Rightarrow> val n))"
    by (simp add: get_result n2 t)
  have h: "hd (order c2) = k"
    unfolding assms(3) using wf1 by (rule hd_order_after_set)
  have p1: "Map_get (cache c) k = None \<longrightarrow>
            Map_get (cache c2) k = Some \<lparr> key = k, val = v1, lastAccessed = t2 \<rparr>
            \<and> snd (LRUCache_get c2 k t3) = (if ttlExpired (ttl c0) t3 t2 then None else Some v1)"
    using n2 g by simp
  have p2: "\<forall>n. Map_get (cache c) k = Some n \<longrightarrow>
            Map_get (cache c2) k = Some \<lparr> key = k, val = val n, lastAccessed = t2 \<rparr>
            \<and> snd (LRUCache_get c2 k t3) = (if ttlExpired (ttl c0) t3 t2 then None else Some (val n))"
    using n2 g by simp
  have p3: "Map_get (cache_v2 (LRUCache_set_v2 c' k v1 t1)) k \<noteq> None \<longrightarrow>
            Map_get (cache_v2 (LRUCache_set_v2 (LRUCache_set_v2 c' k v1 t1) k v2 t2)) k
              = Some \<lparr> value_v2 = v2, lastAccessed_v2 = t2, created = t2 \<rparr>
            \<and> snd (LRUCache_get_v2 (LRUCache_set_v2 (LRUCache_set_v2 c' k v1 t1) k v2 t2) k t3)
                = (if ttlExpired (ttl_v2 c') t3 t2 then None else Some v2)"
    using set_set_get_v2(1) [of c' k v1 t1 v2 t2] set_set_get_v2(2) [of c' k v1 t1 v2 t2 t3]
    by blast
  have p4: "\<not> lessNumber (optMaxSize options') (Finite 1) \<longrightarrow>
            snd (LRUCache_get_v2
                   (LRUCache_set_v2 (LRUCache_set_v2 (LRUCache_new_v2 options') k v1 t1) k v2 t2)
                   k t3)
              = (if ttlExpired (optTtl options') t3 t2 then None else Some v2)"
  proof
    assume "\<not> lessNumber (optMaxSize options') (Finite 1)"
    from set_v2_new_cache [OF this, of k v1 t1]
    have "Map_get (cache_v2 (LRUCache_set_v2 (LRUCache_new_v2 options') k v1 t1)) k \<noteq> None"
      by simp
    from set_set_get_v2(2) [OF this, of v2 t2 t3]
    show "snd (LRUCache_get_v2
                   (LRUCache_set_v2 (LRUCache_set_v2 (LRUCache_new_v2 options') k v1 t1) k v2 t2)
                   k t3)
              = (if ttlExpired (optTtl options') t3 t2 then None else Some v2)"
      by (simp add: LRUCache_new_v2_def)
  qed
  from p1 p2 h p3 p4 show ?thesis by - (intro conjI, assumption+)
qed

text \<open>
  Claim C3 as stated (every cache, \<open>v1\<close> returned) fails in both classes. In the first, a
  cache that already holds \<open>k\<close> keeps the value stored first, and \<open>get\<close> returns neither
  \<open>v1\<close> nor \<open>v2\<close>. In the second, the second \<open>set\<close> overwrites and \<open>get\<close> returns \<open>v2\<close>.
\<close>

theorem repeated_set_counterexample:
  "LRUCache_new \<lparr> optMaxSize = Finite 3, optTtl = None \<rparr>
     = Inr \<lparr> cache = [], order = [], maxSize = 3, ttl = None \<rparr>
   \<and> snd (LRUCache_get
        (LRUCache_set
          (LRUCache_set
            (LRUCache_set \<lparr> cache = [], order = [], maxSize = 3, ttl = None \<rparr> ''k'' ''v0'' 0)
            ''k'' ''v1'' 1)
          ''k'' ''v2'' 2)
        ''k'' 3) = Some ''v0''
   \<and> ''v0'' \<noteq> ''v1''
   \<and> snd (LRUCache_get_v2
        (LRUCache_set_v2
          (LRUCache_set_v2 (LRUCache_new_v2 \<lparr> optMaxSize = Finite 3, optTtl = None \<rparr>)
             ''k'' ''v1'' 1)
          ''k'' ''v2'' 2)
        ''k'' 3) = Some ''v2''
   \<and> ''v2'' \<noteq> ''v1''"
proof -
  have a: "LRUCache_new \<lparr> optMaxSize = Finite 3, optTtl = None \<rparr>
       = Inr \<lparr> cache = [], order = [], maxSize = 3, ttl = None \<rparr>
     \<and> snd (LRUCache_get
        (LRUCache_set
          (LRUCache_set
            (LRUCache_set \<lparr> cache = [], order = [], maxSize = 3, ttl = None \<rparr> ''k'' ''v0'' 0)
            ''k'' ''v1'' 1)
          ''k'' ''v2'' 2)
        ''k'' 3) = Some ''v0''
     \<and> ''v0'' \<noteq> ''v1''"
    by (simp add: LRUCache_new_def cache_eval)
  have b: "snd (LRUCache_get_v2
        (LRUCache_set_v2
          (LRUCache_set_v2 (LRUCache_new_v2 \<lparr> optMaxSize = Finite 3, optTtl = None \<rparr>)
             ''k'' ''v1'' 1)
          ''k'' ''v2'' 2)
        ''k'' 3) = Some ''v2''"
    by (simp add: cache_v2_eval)
  from a b show ?thesis by simp
qed

text \<open>The amended theorem on new caches with a \<open>ttl\<close> of 1000: in the first class, read
  within the \<open>ttl\<close> of the second \<open>set\<close>, and one millisecond too late; in the second
  class, read within the \<open>ttl\<close>.\<close>

theorem repeated_set_keeps_stored_value_witness:
  "LRUCache_new \<lparr> optMaxSize = Finite 3, optTtl = Some (Finite 1000) \<rparr>
     = Inr \<lparr> cache = [], order = [], maxSize = 3, ttl = Some (Finite 1000) \<rparr>
   \<and> snd (LRUCache_get
        (LRUCache_set
          (LRUCache_set \<lparr> cache = [], order = [], maxSize = 3, ttl = Some (Finite 1000) \<rparr>
             ''k'' ''v1'' 1)
          ''k'' ''v2'' 2)
        ''k'' 1002) = Some ''v1''
   \<and> snd (LRUCache_get
        (LRUCache_set
          (LRUCache_set \<lparr> cache = [], order = [], maxSize = 3, ttl = Some (Finite 1000) \<rparr>
             ''k'' ''v1'' 1)
          ''k'' ''v2'' 2)
        ''k'' 1003) = None
   \<and> snd (LRUCache_get_v2
        (LRUCache_set_v2
          (LRUCache_set_v2
            (LRUCache_new_v2 \<lparr> optMaxSize = Finite 3, optTtl = Some (Finite 1000) \<rparr>)
            ''k'' ''v1'' 1)
          ''k'' ''v2'' 2)
        ''k'' 1002) = Some ''v2''"
proof -
  let ?c0 = "\<lparr> cache = [], order = [], maxSize = 3, ttl = Some (Finite 1000) \<rparr>"
  let ?o = "\<lparr> optMaxSize = Finite 3, optTtl = Some (Finite 1000) \<rparr>"
  have n: "LRUCache_new ?o = Inr ?c0"
    by (simp add: LRUCache_new_def)
  have e: "Map_get (cache ?c0) ''k'' = None" by (simp add: Map_get_def)
  have x1: "\<not> ttlExpired (ttl ?c0) 1002 2" by (simp add: ttlExpired_def)
  have x2: "ttlExpired (ttl ?c0) 1003 2" by (simp add: ttlExpired_def)
  have a: "snd (LRUCache_get (LRUCache_set (LRUCache_set ?c0 ''k'' ''v1'' 1) ''k'' ''v2'' 2)
        ''k'' 1002) = Some ''v1''"
    using repeated_set_keeps_stored_value [OF n, of ?c0 "[]" _ "''k''" "''v1''" 1 "''v2''" 2 1002, OF _ refl]
      e x1 by (simp add: calls_Nil)
  have b: "snd (LRUCache_get (LRUCache_set (LRUCache_set ?c0 ''k'' ''v1'' 1) ''k'' ''v2'' 2)
        ''k'' 1003) = None"
    using repeated_set_keeps_stored_value [OF n, of ?c0 "[]" _ "''k''" "''v1''" 1 "''v2''" 2 1003, OF _ refl]
      e x2 by (simp add: calls_Nil)
  have m: "\<not> lessNumber (optMaxSize ?o) (Finite 1)" by simp
  have x3: "\<not> ttlExpired (optTtl ?o) 1002 2" by (simp add: ttlExpired_def)
  have c: "snd (LRUCache_get_v2
        (LRUCache_set_v2 (LRUCache_set_v2 (LRUCache_new_v2 ?o) ''k'' ''v1'' 1) ''k'' ''v2'' 2)
        ''k'' 1002) = Some ''v2''"
    using repeated_set_keeps_stored_value [OF n, of ?c0 "[]" _ "''k''" "''v1''" 1 "''v2''" 2 1002 _ ?o,
        OF _ refl] m x3
    by (simp add: calls_Nil)
  show ?thesis using n a b c by simp
qed

section \<open>The cache: expiry counts from the last access\<close>

lemma ttlExpired_positive:
  "ttlExpired (Some (Finite (of_int d))) now accessed \<longleftrightarrow> d \<noteq> 0 \<and> d < now - accessed"
  by (simp add: ttlExpired_def flip: of_int_diff)

lemma removed_state:
  assumes "wellFormed c" and "Map_get (cache c) k = Some node"
    and "c' = (let r = removeNode c (key node) in r\<lparr>cache := Map_delete (cache r) k\<rparr>)"
  shows "Map_get (cache c') k = None" and "k \<notin> set (order c')"
    and "\<And>k'. k' \<noteq> k \<Longrightarrow> Map_get (cache c') k' = Map_get (cache c) k'"
    and "order c' = remove1 k (order c)"
proof -
  have kn: "key node = k" using assms(1,2) by (rule wellFormed_key)
  show "Map_get (cache c') k = None"
    by (simp add: assms(3) Let_def removeNode_def Map_get_delete)
  show "k \<notin> set (order c')"
    using assms(1) kn by (simp add: assms(3) Let_def removeNode_def wellFormed_def)
  show "\<And>k'. k' \<noteq> k \<Longrightarrow> Map_get (cache c') k' = Map_get (cache c) k'"
    by (simp add: assms(3) Let_def removeNode_def Map_get_delete)
  show "order c' = remove1 k (order c)"
    using kn by (simp add: assms(3) Let_def removeNode_def)
qed

lemma get_expired:
  assumes "wellFormed c" and "Map_get (cache c) k = Some node"
    and "ttlExpired (ttl c) now (lastAccessed node)"
  shows "snd (LRUCache_get c k now) = None"
    and "Map_get (cache (fst (LRUCache_get c k now))) k = None"
    and "k \<notin> set (order (fst (LRUCache_get c k now)))"
proof -
  have e: "fst (LRUCache_get c k now)
      = (let r = removeNode c (key node) in r\<lparr>cache := Map_delete (cache r) k\<rparr>)"
    using assms(2,3) by (simp add: LRUCache_get_def)
  show "snd (LRUCache_get c k now) = None" using assms(2,3) by (simp add: get_result)
  show "Map_get (cache (fst (LRUCache_get c k now))) k = None"
    using removed_state(1) [OF assms(1,2) e] .
  show "k \<notin> set (order (fst (LRUCache_get c k now)))"
    using removed_state(2) [OF assms(1,2) e] .
qed

lemma has_expired:
  assumes "wellFormed c" and "Map_get (cache c) k = Some node"
    and "ttlExpired (ttl c) now (lastAccessed node)"
  shows "snd (LRUCache_has c k now) = False"
    and "Map_get (cache (fst (LRUCache_has c k now))) k = None"
    and "k \<notin> set (order (fst (LRUCache_has c k now)))"
proof -
  have e: "fst (LRUCache_has c k now)
      = (let r = removeNode c (key node) in r\<lparr>cache := Map_delete (cache r) k\<rparr>)"
    using assms(2,3) by (simp add: LRUCache_has_def)
  show "snd (LRUCache_has c k now) = False" using assms(2,3) by (simp add: LRUCache_has_def)
  show "Map_get (cache (fst (LRUCache_has c k now))) k = None"
    using removed_state(1) [OF assms(1,2) e] .
  show "k \<notin> set (order (fst (LRUCache_has c k now)))"
    using removed_state(2) [OF assms(1,2) e] .
qed

lemma get_absent:
  assumes "wellFormed c" and "Map_get (cache c) k = None"
  shows "LRUCache_get c k now = (c, None)" and "LRUCache_has c k now = (c, False)"
    and "k \<notin> set (order c)"
proof -
  show "LRUCache_get c k now = (c, None)" using assms(2) by (simp add: LRUCache_get_def)
  show "LRUCache_has c k now = (c, False)" using assms(2) by (simp add: LRUCache_has_def)
  show "k \<notin> set (order c)"
    using assms Map_get_None_iff [of "cache c" k] by (simp add: wellFormed_def)
qed

lemma get_live:
  assumes "wellFormed c" and "Map_get (cache c) k = Some node"
    and "\<not> ttlExpired (ttl c) now (lastAccessed node)"
  shows "snd (LRUCache_get c k now) = Some (val node)"
    and "Map_get (cache (fst (LRUCache_get c k now))) k = Some (node\<lparr>lastAccessed := now\<rparr>)"
    and "order (fst (LRUCache_get c k now)) = k # remove1 k (order c)"
    and "LRUCache_has c k now = (c, True)"
proof -
  have kn: "key node = k" using assms(1,2) by (rule wellFormed_key)
  show "snd (LRUCache_get c k now) = Some (val node)" using assms(2,3) by (simp add: get_result)
  show "Map_get (cache (fst (LRUCache_get c k now))) k = Some (node\<lparr>lastAccessed := now\<rparr>)"
    using assms(2,3)
    by (simp add: LRUCache_get_def moveToFront_def addToFront_def removeNode_def Map_get_set)
  show "order (fst (LRUCache_get c k now)) = k # remove1 k (order c)"
    using assms(2,3) kn
    by (simp add: LRUCache_get_def moveToFront_def addToFront_def removeNode_def)
  show "LRUCache_has c k now = (c, True)" using assms(2,3) by (simp add: LRUCache_has_def)
qed

text \<open>Calls that do not touch \<open>k\<close> leave its node as it is, or remove it.\<close>

lemma untouched_call:
  assumes "wellFormed c" and "untouched k x"
  shows "Map_get (cache (call c x)) k = None \<or> Map_get (cache (call c x)) k = Map_get (cache c) k"
proof (cases x)
  case (CallSet k' v now)
  then have ne: "k' \<noteq> k" using assms(2) by simp
  show ?thesis
  proof (cases "Map_get (cache c) k'")
    case None
    with assms(1) CallSet ne show ?thesis
      by (auto simp: set_new Let_def Map_get_set Map_get_delete)
  next
    case (Some node)
    with assms(1) CallSet ne show ?thesis
      by (simp add: set_existing moveToFront_def addToFront_def removeNode_def Map_get_set)
  qed
next
  case (CallGet k' now)
  then have ne: "k' \<noteq> k" using assms(2) by simp
  with CallGet show ?thesis
    by (auto simp: LRUCache_get_def Let_def moveToFront_def addToFront_def removeNode_def
        Map_get_set Map_get_delete split: option.splits)
next
  case (CallHas k' now)
  then show ?thesis
    by (auto simp: LRUCache_has_def Let_def removeNode_def Map_get_delete split: option.splits)
next
  case (CallDelete k')
  then show ?thesis
    by (auto simp: LRUCache_delete_def Let_def removeNode_def Map_get_delete split: option.splits)
next
  case CallClear
  then show ?thesis by (simp add: LRUCache_clear_def Map_get_def)
qed

lemma untouched_calls:
  assumes "wellFormed c" and "\<forall>x \<in> set xs. untouched k x"
  shows "Map_get (cache (calls c xs)) k = None \<or> Map_get (cache (calls c xs)) k = Map_get (cache c) k"
  using assms
proof (induction xs arbitrary: c)
  case Nil
  then show ?case by (simp add: calls_Nil)
next
  case (Cons x xs)
  have wf: "wellFormed (call c x)" using Cons.prems(1) by (rule wellFormed_call)
  have u: "\<forall>x \<in> set xs. untouched k x" and ux: "untouched k x" using Cons.prems(2) by simp_all
  from Cons.IH [OF wf u] untouched_call [OF Cons.prems(1) ux]
  show ?case by (auto simp: calls_Cons)
qed

lemma getsAt_alive:
  assumes "wellFormed c" and "ttl c = Some (Finite (of_int d))"
    and "Map_get (cache c) k = Some node" and "withinTtl d (lastAccessed node) ts"
  shows "getsAt c k ts = map (\<lambda>_. Some (val node)) ts"
  using assms
proof (induction ts arbitrary: c node)
  case Nil
  then show ?case by simp
next
  case (Cons now ts)
  have live: "\<not> ttlExpired (ttl c) now (lastAccessed node)"
    using Cons.prems(2,4) by (simp add: ttlExpired_positive)
  have wf: "wellFormed (fst (LRUCache_get c k now))" using Cons.prems(1) by (rule wellFormed_get)
  have t: "ttl (fst (LRUCache_get c k now)) = Some (Finite (of_int d))"
    using ttl_call [of c "CallGet k now"] Cons.prems(2) by simp
  have w: "withinTtl d (lastAccessed (node\<lparr>lastAccessed := now\<rparr>)) ts"
    using Cons.prems(4) by simp
  from Cons.IH [OF wf t get_live(2) [OF Cons.prems(1,3) live] w]
    get_live(1) [OF Cons.prems(1,3) live]
  show ?case by simp
qed

lemma stale_absent:
  assumes "wellFormed c" and "ttl c = Some (Finite (of_int d))" and "0 < d"
    and "Map_get (cache c) k = None
         \<or> (\<exists>node. Map_get (cache c) k = Some node \<and> d < now - lastAccessed node)"
  shows "snd (LRUCache_get c k now) = None
       \<and> Map_get (cache (fst (LRUCache_get c k now))) k = None
       \<and> k \<notin> set (order (fst (LRUCache_get c k now)))
       \<and> snd (LRUCache_has c k now) = False
       \<and> Map_get (cache (fst (LRUCache_has c k now))) k = None
       \<and> k \<notin> set (order (fst (LRUCache_has c k now)))"
proof (cases "Map_get (cache c) k")
  case None
  with get_absent(1) [OF assms(1) None, of now] get_absent(2) [OF assms(1) None, of now]
    get_absent(3) [OF assms(1) None]
  show ?thesis by simp
next
  case (Some node)
  with assms(4) have "d < now - lastAccessed node" by simp
  then have e: "ttlExpired (ttl c) now (lastAccessed node)"
    using assms(2,3) by (simp add: ttlExpired_positive)
  from get_expired [OF assms(1) Some e] has_expired [OF assms(1) Some e]
  show ?thesis by simp
qed

lemma has_frame:
  assumes "wellFormed c"
  shows "(\<forall>k'. k' \<noteq> k \<longrightarrow> Map_get (cache (fst (LRUCache_has c k now))) k' = Map_get (cache c) k')
       \<and> (Map_get (cache (fst (LRUCache_has c k now))) k = None
            \<or> Map_get (cache (fst (LRUCache_has c k now))) k = Map_get (cache c) k)
       \<and> order (fst (LRUCache_has c k now))
            = (if snd (LRUCache_has c k now) then order c else remove1 k (order c))
       \<and> (snd (LRUCache_has c k now) \<longrightarrow> fst (LRUCache_has c k now) = c)"
proof (cases "Map_get (cache c) k")
  case None
  have "remove1 k (order c) = order c"
    using get_absent(3) [OF assms None] by (simp add: remove1_idem)
  with get_absent(2) [OF assms None, of now] show ?thesis by simp
next
  case (Some node)
  show ?thesis
  proof (cases "ttlExpired (ttl c) now (lastAccessed node)")
    case True
    have e: "fst (LRUCache_has c k now)
        = (let r = removeNode c (key node) in r\<lparr>cache := Map_delete (cache r) k\<rparr>)"
      using Some True by (simp add: LRUCache_has_def)
    from removed_state(1) [OF assms Some e] removed_state(3) [OF assms Some e]
      removed_state(4) [OF assms Some e] has_expired(1) [OF assms Some True]
    show ?thesis by simp
  next
    case False
    with get_live(4) [OF assms Some False] show ?thesis by simp
  qed
qed

text \<open>
  Claim C5, as amended. In the first class, take a cache constructed with a \<open>ttl\<close> of
  \<open>d\<close> milliseconds (a positive integer) and let \<open>c\<close> be a state reached from it. An
  entry set at \<open>t0\<close> and then left untouched (no \<open>set\<close> or \<open>get\<close> of its key) is absent,
  and removed from map and list, on a \<open>get\<close> or \<open>has\<close> later than \<open>t0 + d\<close>. A \<open>get\<close> of
  a live entry returns its value and sets \<open>lastAccessed\<close> to the clock reading, so gets
  that follow one another within \<open>d\<close> all hit, however long after the \<open>set\<close>. \<open>has\<close>
  changes no \<open>lastAccessed\<close> and no position in the recency list: it returns the state
  it was given, or the state without the expired entry. In the second class, in any
  state \<open>c'\<close> with that \<open>ttl\<close>, expiry counts from \<open>created\<close>, the time of the last \<open>set\<close>:
  a \<open>set\<close> leaves both timestamps of its entry at its clock reading; \<open>get\<close> and \<open>has\<close>
  miss, and remove the entry, later than \<open>created + d\<close>, and hit up to then; a \<open>get\<close>
  that hits changes \<open>lastAccessed\<close> only, so of gets at non-decreasing readings exactly
  those up to \<open>created + d\<close> hit; a \<open>has\<close> that hits changes nothing.
\<close>

theorem ttl_measured_from_last_access:
  assumes "LRUCache_new options = Inr c0" and "optTtl options = Some (Finite (of_int d))"
    and "0 < d" and "c = calls c0 xs"
  shows "((\<forall>y \<in> set ys. untouched k y) \<and> d < now - t0 \<longrightarrow>
            snd (LRUCache_get (calls (LRUCache_set c k v t0) ys) k now) = None
          \<and> Map_get (cache (fst (LRUCache_get (calls (LRUCache_set c k v t0) ys) k now))) k = None
          \<and> k \<notin> set (order (fst (LRUCache_get (calls (LRUCache_set c k v t0) ys) k now)))
          \<and> snd (LRUCache_has (calls (LRUCache_set c k v t0) ys) k now) = False
          \<and> Map_get (cache (fst (LRUCache_has (calls (LRUCache_set c k v t0) ys) k now))) k = None
          \<and> k \<notin> set (order (fst (LRUCache_has (calls (LRUCache_set c k v t0) ys) k now))))
       \<and> (\<forall>node. Map_get (cache c) k = Some node \<and> now - lastAccessed node \<le> d \<longrightarrow>
            snd (LRUCache_get c k now) = Some (val node)
          \<and> Map_get (cache (fst (LRUCache_get c k now))) k = Some (node\<lparr>lastAccessed := now\<rparr>)
          \<and> LRUCache_has c k now = (c, True))
       \<and> (\<forall>node. Map_get (cache c) k = Some node \<and> withinTtl d (lastAccessed node) ts \<longrightarrow>
            getsAt c k ts = map (\<lambda>_. Some (val node)) ts)
       \<and> (\<forall>k'. k' \<noteq> k \<longrightarrow>
            Map_get (cache (fst (LRUCache_has c k now))) k' = Map_get (cache c) k')
       \<and> (Map_get (cache (fst (LRUCache_has c k now))) k = None
            \<or> Map_get (cache (fst (LRUCache_has c k now))) k = Map_get (cache c) k)
       \<and> order (fst (LRUCache_has c k now))
            = (if snd (LRUCache_has c k now) then order c else remove1 k (order c))
       \<and> (Map_get (cache_v2 (LRUCache_set_v2 c' k v t0)) k = None
            \<or> Map_get (cache_v2 (LRUCache_set_v2 c' k v t0)) k
                = Some \<lparr> value_v2 = v, lastAccessed_v2 = t0, created = t0 \<rparr>)
       \<and> (\<forall>entry. ttl_v2 c' = Some (Finite (of_int d)) \<and> Map_get (cache_v2 c') k = Some entry \<longrightarrow>
            (d < now - created entry \<longrightarrow>
               LRUCache_get_v2 c' k now = (c'\<lparr>cache_v2 := Map_delete (cache_v2 c') k\<rparr>, None)
             \<and> LRUCache_has_v2 c' k now = (c'\<lparr>cache_v2 := Map_delete (cache_v2 c') k\<rparr>, False)
             \<and> Map_get (Map_delete (cache_v2 c') k) k = None)
          \<and> (now - created entry \<le> d \<longrightarrow>
               LRUCache_get_v2 c' k now
                 = (c'\<lparr>cache_v2 := Map_set (cache_v2 c') k (entry\<lparr>lastAccessed_v2 := now\<rparr>)\<rparr>,
                    Some (value_v2 entry))
             \<and> LRUCache_has_v2 c' k now = (c', True))
          \<and> (sorted ts \<longrightarrow>
               getsAt_v2 c' k ts
                 = map (\<lambda>now. if d < now - created entry then None else Some (value_v2 entry)) ts))"
proof -
  have wf0: "wellFormed c0" using assms(1) by (rule wellFormed_new)
  then have wf: "wellFormed c" unfolding assms(4) by (rule wellFormed_calls)
  have t0: "ttl c0 = Some (Finite (of_int d))" using new_fields [OF assms(1)] assms(2) by simp
  then have t: "ttl c = Some (Finite (of_int d))" by (simp add: assms(4))
  have a: "(\<forall>y \<in> set ys. untouched k y) \<and> d < now - t0 \<longrightarrow>
            snd (LRUCache_get (calls (LRUCache_set c k v t0) ys) k now) = None
          \<and> Map_get (cache (fst (LRUCache_get (calls (LRUCache_set c k v t0) ys) k now))) k = None
          \<and> k \<notin> set (order (fst (LRUCache_get (calls (LRUCache_set c k v t0) ys) k now)))
          \<and> snd (LRUCache_has (calls (LRUCache_set c k v t0) ys) k now) = False
          \<and> Map_get (cache (fst (LRUCache_has (calls (LRUCache_set c k v t0) ys) k now))) k = None
          \<and> k \<notin> set (order (fst (LRUCache_has (calls (LRUCache_set c k v t0) ys) k now)))"
  proof
    assume h: "(\<forall>y \<in> set ys. untouched k y) \<and> d < now - t0"
    let ?c1 = "LRUCache_set c k v t0"
    let ?c2 = "calls ?c1 ys"
    have wf1: "wellFormed ?c1" using wf by (rule wellFormed_set)
    then have wf2: "wellFormed ?c2" by (rule wellFormed_calls)
    have t2: "ttl ?c2 = Some (Finite (of_int d))" using t by simp
    obtain node where n1: "Map_get (cache ?c1) k = Some node" and la: "lastAccessed node = t0"
      using node_after_set [OF wf, of k v t0] by simp
    from untouched_calls [OF wf1, of ys k] h n1
    have "Map_get (cache ?c2) k = None \<or> Map_get (cache ?c2) k = Some node" by simp
    then have "Map_get (cache ?c2) k = None
         \<or> (\<exists>node. Map_get (cache ?c2) k = Some node \<and> d < now - lastAccessed node)"
      using h la by auto
    from stale_absent [OF wf2 t2 assms(3) this]
    show "snd (LRUCache_get ?c2 k now) = None
          \<and> Map_get (cache (fst (LRUCache_get ?c2 k now))) k = None
          \<and> k \<notin> set (order (fst (LRUCache_get ?c2 k now)))
          \<and> snd (LRUCache_has ?c2 k now) = False
          \<and> Map_get (cache (fst (LRUCache_has ?c2 k now))) k = None
          \<and> k \<notin> set (order (fst (LRUCache_has ?c2 k now)))" .
  qed
  have b: "\<forall>node. Map_get (cache c) k = Some node \<and> now - lastAccessed node \<le> d \<longrightarrow>
            snd (LRUCache_get c k now) = Some (val node)
          \<and> Map_get (cache (fst (LRUCache_get c k now))) k = Some (node\<lparr>lastAccessed := now\<rparr>)
          \<and> LRUCache_has c k now = (c, True)"
  proof (intro allI impI)
    fix node
    assume h: "Map_get (cache c) k = Some node \<and> now - lastAccessed node \<le> d"
    then have s: "Map_get (cache c) k = Some node" by simp
    have live: "\<not> ttlExpired (ttl c) now (lastAccessed node)"
      using h t by (simp add: ttlExpired_positive)
    from get_live(1) [OF wf s live] get_live(2) [OF wf s live] get_live(4) [OF wf s live]
    show "snd (LRUCache_get c k now) = Some (val node)
          \<and> Map_get (cache (fst (LRUCache_get c k now))) k = Some (node\<lparr>lastAccessed := now\<rparr>)
          \<and> LRUCache_has c k now = (c, True)" by simp
  qed
  have g: "\<forall>node. Map_get (cache c) k = Some node \<and> withinTtl d (lastAccessed node) ts \<longrightarrow>
            getsAt c k ts = map (\<lambda>_. Some (val node)) ts"
    using getsAt_alive [OF wf t] by blast
  have h1: "\<forall>k'. k' \<noteq> k \<longrightarrow>
            Map_get (cache (fst (LRUCache_has c k now))) k' = Map_get (cache c) k'"
    and h2: "Map_get (cache (fst (LRUCache_has c k now))) k = None
            \<or> Map_get (cache (fst (LRUCache_has c k now))) k = Map_get (cache c) k"
    and h3: "order (fst (LRUCache_has c k now))
            = (if snd (LRUCache_has c k now) then order c else remove1 k (order c))"
    using has_frame [OF wf, of k now] by blast+
  have s2: "Map_get (cache_v2 (LRUCache_set_v2 c' k v t0)) k = None
            \<or> Map_get (cache_v2 (LRUCache_set_v2 c' k v t0)) k
                = Some \<lparr> value_v2 = v, lastAccessed_v2 = t0, created = t0 \<rparr>"
    by (rule set_v2_entry)
  have e2: "\<forall>entry. ttl_v2 c' = Some (Finite (of_int d)) \<and> Map_get (cache_v2 c') k = Some entry \<longrightarrow>
            (d < now - created entry \<longrightarrow>
               LRUCache_get_v2 c' k now = (c'\<lparr>cache_v2 := Map_delete (cache_v2 c') k\<rparr>, None)
             \<and> LRUCache_has_v2 c' k now = (c'\<lparr>cache_v2 := Map_delete (cache_v2 c') k\<rparr>, False)
             \<and> Map_get (Map_delete (cache_v2 c') k) k = None)
          \<and> (now - created entry \<le> d \<longrightarrow>
               LRUCache_get_v2 c' k now
                 = (c'\<lparr>cache_v2 := Map_set (cache_v2 c') k (entry\<lparr>lastAccessed_v2 := now\<rparr>)\<rparr>,
                    Some (value_v2 entry))
             \<and> LRUCache_has_v2 c' k now = (c', True))
          \<and> (sorted ts \<longrightarrow>
               getsAt_v2 c' k ts
                 = map (\<lambda>now. if d < now - created entry then None else Some (value_v2 entry)) ts)"
  proof (intro allI impI)
    fix entry
    assume h: "ttl_v2 c' = Some (Finite (of_int d)) \<and> Map_get (cache_v2 c') k = Some entry"
    then have t': "ttl_v2 c' = Some (Finite (of_int d))"
      and m': "Map_get (cache_v2 c') k = Some entry" by simp_all
    from get_has_v2(1) [OF t' assms(3) m', of now] get_has_v2(2) [OF t' assms(3) m', of now]
      getsAt_v2_from_created [OF t' assms(3) m', of ts]
    show "(d < now - created entry \<longrightarrow>
               LRUCache_get_v2 c' k now = (c'\<lparr>cache_v2 := Map_delete (cache_v2 c') k\<rparr>, None)
             \<and> LRUCache_has_v2 c' k now = (c'\<lparr>cache_v2 := Map_delete (cache_v2 c') k\<rparr>, False)
             \<and> Map_get (Map_delete (cache_v2 c') k) k = None)
          \<and> (now - created entry \<le> d \<longrightarrow>
               LRUCache_get_v2 c' k now
                 = (c'\<lparr>cache_v2 := Map_set (cache_v2 c') k (entry\<lparr>lastAccessed_v2 := now\<rparr>)\<rparr>,
                    Some (value_v2 entry))
             \<and> LRUCache_has_v2 c' k now = (c', True))
          \<and> (sorted ts \<longrightarrow>
               getsAt_v2 c' k ts
                 = map (\<lambda>now. if d < now - created entry then None else Some (value_v2 entry)) ts)"
      by blast
  qed
  from a b g h1 h2 h3 s2 e2 show ?thesis by - (intro conjI, assumption+)
qed

text \<open>
  Claim C5 as stated (expiry from the last access, in both classes) fails in the second
  class: with a \<open>ttl\<close> of 100, an entry set at 0 and read at 60 is gone at 120, sixty
  milliseconds after its last access.
\<close>

theorem ttl_from_creation_counterexample:
  "getsAt_v2
     (LRUCache_set_v2 (LRUCache_new_v2 \<lparr> optMaxSize = Finite 2, optTtl = Some (Finite 100) \<rparr>)
        ''k'' ''v'' 0)
     ''k'' [60, 120] = [Some ''v'', None]
   \<and> \<not> (120 - 60 > (100::int))"
  by (simp add: cache_v2_eval)

text \<open>The theorem at a \<open>ttl\<close> of 100: an entry set at 0 and only peeked at is gone at
  101; gets at 60, 120, 180 and 280 all hit.\<close>

theorem ttl_measured_from_last_access_witness:
  "LRUCache_new \<lparr> optMaxSize = Finite 2, optTtl = Some (Finite (of_int 100)) \<rparr>
     = Inr \<lparr> cache = [], order = [], maxSize = 2, ttl = Some (Finite (of_int 100)) \<rparr>
   \<and> snd (LRUCache_get (calls (LRUCache_set
        \<lparr> cache = [], order = [], maxSize = 2, ttl = Some (Finite (of_int 100)) \<rparr> ''k'' ''v'' 0)
        [CallHas ''k'' 60, CallSet ''j'' ''w'' 90]) ''k'' 101) = None
   \<and> getsAt (LRUCache_set
        \<lparr> cache = [], order = [], maxSize = 2, ttl = Some (Finite (of_int 100)) \<rparr> ''k'' ''v'' 0)
        ''k'' [60, 120, 180, 280] = [Some ''v'', Some ''v'', Some ''v'', Some ''v'']
   \<and> getsAt_v2
        \<lparr> cache_v2 = [(''k'', \<lparr> value_v2 = ''v'', lastAccessed_v2 = 0, created = 0 \<rparr>)],
          maxSize_v2 = Finite 2, ttl_v2 = Some (Finite (of_int 100)) \<rparr>
        ''k'' [60, 100, 101] = [Some ''v'', Some ''v'', None]"
proof -
  let ?c0 = "\<lparr> cache = [], order = [], maxSize = 2, ttl = Some (Finite (of_int 100)) \<rparr>"
  have n: "LRUCache_new \<lparr> optMaxSize = Finite 2, optTtl = Some (Finite (of_int 100)) \<rparr> = Inr ?c0"
    by (simp add: LRUCache_new_def)
  have o: "optTtl \<lparr> optMaxSize = Finite 2, optTtl = Some (Finite (of_int 100)) \<rparr>
      = Some (Finite (of_int 100))" by simp
  have a: "snd (LRUCache_get (calls (LRUCache_set ?c0 ''k'' ''v'' 0)
        [CallHas ''k'' 60, CallSet ''j'' ''w'' 90]) ''k'' 101) = None"
    using ttl_measured_from_last_access [OF n o, of ?c0 "[]"
        "[CallHas ''k'' 60, CallSet ''j'' ''w'' 90]" "''k''" 101 0 "''v''"]
    by (simp add: calls_Nil)
  have s: "LRUCache_set ?c0 ''k'' ''v'' 0 = calls ?c0 [CallSet ''k'' ''v'' 0]"
    by (simp add: calls_Cons calls_Nil)
  have m: "Map_get (cache (calls ?c0 [CallSet ''k'' ''v'' 0])) ''k''
      = Some \<lparr> key = ''k'', val = ''v'', lastAccessed = 0 \<rparr>"
    by (simp add: cache_eval)
  have b: "getsAt (calls ?c0 [CallSet ''k'' ''v'' 0]) ''k'' [60, 120, 180, 280]
      = [Some ''v'', Some ''v'', Some ''v'', Some ''v'']"
    using ttl_measured_from_last_access [OF n o, of "calls ?c0 [CallSet ''k'' ''v'' 0]"
        "[CallSet ''k'' ''v'' 0]" "[]" "''k''" 0 0 "''v''" "[60, 120, 180, 280]"] m
    by simp
  let ?c' = "\<lparr> cache_v2 = [(''k'', \<lparr> value_v2 = ''v'', lastAccessed_v2 = 0, created = 0 \<rparr>)],
               maxSize_v2 = Finite 2, ttl_v2 = Some (Finite (of_int 100)) \<rparr>"
  have m': "Map_get (cache_v2 ?c') ''k''
      = Some \<lparr> value_v2 = ''v'', lastAccessed_v2 = 0, created = 0 \<rparr>"
    by (simp add: Map_get_def)
  have c: "getsAt_v2 ?c' ''k'' [60, 100, 101] = [Some ''v'', Some ''v'', None]"
    using ttl_measured_from_last_access [OF n o, of ?c0 "[]" "[]" "''k''" 0 0 "''v''"
        "[60, 100, 101]" ?c'] m'
    by (simp add: calls_Nil)
  show ?thesis using n a b c s by simp
qed

section \<open>The cache: the list is ordered by recency of use\<close>

lemma sorted_wrt_remove1: "sorted_wrt P xs \<Longrightarrow> sorted_wrt P (remove1 k xs)"
proof (induction xs)
  case Nil
  then show ?case by simp
next
  case (Cons x xs)
  then show ?case using set_remove1_subset [of k xs] by auto
qed

lemma sorted_wrt_butlast: "sorted_wrt P xs \<Longrightarrow> sorted_wrt P (butlast xs)"
  by (simp add: butlast_conv_take sorted_wrt_take)

lemma recent_front:
  assumes "sorted_wrt (\<lambda>a b. accessedAt c b \<le> accessedAt c a) ys"
    and "\<forall>x \<in> set ys. accessedAt c x \<le> T" and "T \<le> now"
    and "order c' = k # ys" and "accessedAt c' k = now"
    and "\<forall>x \<in> set ys. accessedAt c' x = accessedAt c x"
  shows "recent c' now"
proof -
  have "sorted_wrt (\<lambda>a b. accessedAt c' b \<le> accessedAt c' a) ys"
    using assms(1,6) by (auto intro: sorted_wrt_mono_rel [rotated])
  moreover have "\<forall>x \<in> set ys. accessedAt c' x \<le> now" using assms(2,3,6) by force
  ultimately show ?thesis using assms(4,5) by (simp add: recent_def)
qed

lemma recent_same:
  assumes "sorted_wrt (\<lambda>a b. accessedAt c b \<le> accessedAt c a) ys"
    and "\<forall>x \<in> set ys. accessedAt c x \<le> T" and "T \<le> T'"
    and "order c' = ys"
    and "\<forall>x \<in> set ys. accessedAt c' x = accessedAt c x"
  shows "recent c' T'"
proof -
  have "sorted_wrt (\<lambda>a b. accessedAt c' b \<le> accessedAt c' a) ys"
    using assms(1,5) by (auto intro: sorted_wrt_mono_rel [rotated])
  moreover have "\<forall>x \<in> set ys. accessedAt c' x \<le> T'" using assms(2,3,5) by force
  ultimately show ?thesis using assms(4) by (simp add: recent_def)
qed

lemma cache_get_live:
  assumes "Map_get (cache c) k = Some node" and "\<not> ttlExpired (ttl c) now (lastAccessed node)"
  shows "cache (fst (LRUCache_get c k now)) = Map_set (cache c) k (node\<lparr>lastAccessed := now\<rparr>)"
  using assms by (simp add: LRUCache_get_def moveToFront_def addToFront_def removeNode_def)

lemma accessedAt_Map_set:
  "cache c' = Map_set (cache c) k node \<Longrightarrow>
   accessedAt c' k' = (if k' = k then lastAccessed node else accessedAt c k')"
  by (simp add: accessedAt_def Map_get_set)

lemma recent_removed:
  assumes wf: "wellFormed c" and r: "recent c T" and g: "Map_get (cache c) k = Some node"
    and c': "c' = (let r = removeNode c (key node) in r\<lparr>cache := Map_delete (cache r) k\<rparr>)"
    and le: "T \<le> T'"
  shows "recent c' T'"
proof -
  note rs = removed_state [OF wf g c']
  have s: "sorted_wrt (\<lambda>a b. accessedAt c b \<le> accessedAt c a) (remove1 k (order c))"
    using r by (simp add: recent_def sorted_wrt_remove1)
  have b: "\<forall>x \<in> set (remove1 k (order c)). accessedAt c x \<le> T"
    using r set_remove1_subset [of k "order c"] by (auto simp: recent_def)
  have d: "distinct (order c)" using wf by (simp add: wellFormed_def)
  have e: "\<forall>x \<in> set (remove1 k (order c)). accessedAt c' x = accessedAt c x"
    using rs(3) d by (auto simp: accessedAt_def)
  show ?thesis by (rule recent_same [OF s b le rs(4) e])
qed

lemma recent_touched:
  assumes wf: "wellFormed c" and r: "recent c T" and le: "T \<le> now"
    and o: "order c' = k # remove1 k (order c)"
    and m: "cache c' = Map_set (cache c) k node" and la: "lastAccessed node = now"
  shows "recent c' now"
proof -
  have s: "sorted_wrt (\<lambda>a b. accessedAt c b \<le> accessedAt c a) (remove1 k (order c))"
    using r by (simp add: recent_def sorted_wrt_remove1)
  have b: "\<forall>x \<in> set (remove1 k (order c)). accessedAt c x \<le> T"
    using r set_remove1_subset [of k "order c"] by (auto simp: recent_def)
  have d: "distinct (order c)" using wf by (simp add: wellFormed_def)
  have a: "accessedAt c' k = now" using accessedAt_Map_set [OF m, of k] la by simp
  have e: "\<forall>x \<in> set (remove1 k (order c)). accessedAt c' x = accessedAt c x"
    using accessedAt_Map_set [OF m] d by auto
  show ?thesis by (rule recent_front [OF s b le o a e])
qed

lemma recent_set:
  assumes wf: "wellFormed c" and r: "recent c T" and le: "T \<le> now"
  shows "recent (LRUCache_set c k v now) now"
proof (cases "Map_get (cache c) k")
  case (Some node)
  have e: "LRUCache_set c k v now
      = moveToFront (c\<lparr>cache := Map_set (cache c) k (node\<lparr>lastAccessed := now\<rparr>)\<rparr>) k"
    using wf Some by (rule set_existing)
  show ?thesis
    by (rule recent_touched [OF wf r le, of _ k "node\<lparr>lastAccessed := now\<rparr>"])
       (simp_all add: e moveToFront_def addToFront_def removeNode_def)
next
  case None
  have kno: "k \<notin> set (order c)" using get_absent(3) [OF wf None] .
  have d: "distinct (order c)" using wf by (simp add: wellFormed_def)
  let ?n = "\<lparr> key = k, val = v, lastAccessed = now \<rparr>"
  show ?thesis
  proof (cases "length (cache c) < maxSize c")
    case True
    then have e: "LRUCache_set c k v now = c\<lparr>cache := Map_set (cache c) k ?n, order := k # order c\<rparr>"
      using set_new [OF wf None, of v now] by (simp add: Let_def)
    have o: "order (LRUCache_set c k v now) = k # remove1 k (order c)"
      using kno by (simp add: e remove1_idem)
    show ?thesis
      by (rule recent_touched [OF wf r le o, of ?n]) (simp_all add: e)
  next
    case False
    then have e: "LRUCache_set c k v now
        = c\<lparr>cache := Map_delete (Map_set (cache c) k ?n) (last (order c)),
            order := k # butlast (order c)\<rparr>"
      using set_new [OF wf None, of v now] by (simp add: Let_def)
    have full: "length (cache c) = maxSize c" using False wf by (simp add: wellFormed_def)
    then have ne: "order c \<noteq> []" using wf length_order [of c] by (auto simp: wellFormed_def)
    have s: "sorted_wrt (\<lambda>a b. accessedAt c b \<le> accessedAt c a) (butlast (order c))"
      using r by (simp add: recent_def sorted_wrt_butlast)
    have b: "\<forall>x \<in> set (butlast (order c)). accessedAt c x \<le> T"
      using r by (auto simp: recent_def dest: in_set_butlastD)
    have o: "order (LRUCache_set c k v now) = k # butlast (order c)" by (simp add: e)
    have lk: "last (order c) \<noteq> k" using ne kno last_in_set by metis
    have a: "accessedAt (LRUCache_set c k v now) k = now"
      using lk by (simp add: e accessedAt_def Map_get_delete Map_get_set)
    have nl: "\<forall>x \<in> set (butlast (order c)). x \<noteq> last (order c)"
      using d ne by (metis append_butlast_last_id distinct_append disjoint_iff list.set_intros(1))
    have f: "\<forall>x \<in> set (butlast (order c)). accessedAt (LRUCache_set c k v now) x = accessedAt c x"
      using nl kno by (auto simp: e accessedAt_def Map_get_delete Map_get_set dest: in_set_butlastD)
    show ?thesis by (rule recent_front [OF s b le o a f])
  qed
qed

lemma recent_get:
  assumes wf: "wellFormed c" and r: "recent c T" and le: "T \<le> now"
  shows "recent (fst (LRUCache_get c k now)) now"
proof (cases "Map_get (cache c) k")
  case None
  then have "fst (LRUCache_get c k now) = c" by (simp add: LRUCache_get_def)
  with r le show ?thesis by (auto simp: recent_def)
next
  case (Some node)
  show ?thesis
  proof (cases "ttlExpired (ttl c) now (lastAccessed node)")
    case True
    have e: "fst (LRUCache_get c k now)
        = (let r = removeNode c (key node) in r\<lparr>cache := Map_delete (cache r) k\<rparr>)"
      using Some True by (simp add: LRUCache_get_def)
    show ?thesis by (rule recent_removed [OF wf r Some e le])
  next
    case False
    show ?thesis
      by (rule recent_touched [OF wf r le get_live(3) [OF wf Some False]
            cache_get_live [OF Some False]]) simp
  qed
qed

lemma recent_has:
  assumes wf: "wellFormed c" and r: "recent c T" and le: "T \<le> now"
  shows "recent (fst (LRUCache_has c k now)) now"
proof (cases "Map_get (cache c) k")
  case None
  then have "fst (LRUCache_has c k now) = c" by (simp add: LRUCache_has_def)
  with r le show ?thesis by (auto simp: recent_def)
next
  case (Some node)
  show ?thesis
  proof (cases "ttlExpired (ttl c) now (lastAccessed node)")
    case True
    have e: "fst (LRUCache_has c k now)
        = (let r = removeNode c (key node) in r\<lparr>cache := Map_delete (cache r) k\<rparr>)"
      using Some True by (simp add: LRUCache_has_def)
    show ?thesis by (rule recent_removed [OF wf r Some e le])
  next
    case False
    then have "fst (LRUCache_has c k now) = c" using Some by (simp add: LRUCache_has_def)
    with r le show ?thesis by (auto simp: recent_def)
  qed
qed

lemma recent_delete:
  assumes wf: "wellFormed c" and r: "recent c T"
  shows "recent (fst (LRUCache_delete c k)) T"
proof (cases "Map_get (cache c) k")
  case None
  then have "fst (LRUCache_delete c k) = c" by (simp add: LRUCache_delete_def)
  with r show ?thesis by simp
next
  case (Some node)
  have e: "fst (LRUCache_delete c k)
      = (let r = removeNode c (key node) in r\<lparr>cache := Map_delete (cache r) k\<rparr>)"
    using Some by (simp add: LRUCache_delete_def)
  show ?thesis by (rule recent_removed [OF wf r Some e order_refl])
qed

lemma recent_calls:
  assumes "wellFormed c" and "recent c T" and "sorted (T # readings xs)"
  shows "\<exists>T'. recent (calls c xs) T'"
  using assms
proof (induction xs arbitrary: c T)
  case Nil
  then show ?case by (auto simp: calls_Nil)
next
  case (Cons x xs)
  have wf': "wellFormed (call c x)" using Cons.prems(1) by (rule wellFormed_call)
  show ?case
  proof (cases x)
    case (CallSet k v now)
    with Cons.prems(3) have le: "T \<le> now" and s: "sorted (now # readings xs)" by simp_all
    have "recent (call c x) now"
      unfolding CallSet call.simps by (rule recent_set [OF Cons.prems(1,2) le])
    from Cons.IH [OF wf' this s] show ?thesis by (simp add: calls_Cons)
  next
    case (CallGet k now)
    with Cons.prems(3) have le: "T \<le> now" and s: "sorted (now # readings xs)" by simp_all
    have "recent (call c x) now"
      unfolding CallGet call.simps by (rule recent_get [OF Cons.prems(1,2) le])
    from Cons.IH [OF wf' this s] show ?thesis by (simp add: calls_Cons)
  next
    case (CallHas k now)
    with Cons.prems(3) have le: "T \<le> now" and s: "sorted (now # readings xs)" by simp_all
    have "recent (call c x) now"
      unfolding CallHas call.simps by (rule recent_has [OF Cons.prems(1,2) le])
    from Cons.IH [OF wf' this s] show ?thesis by (simp add: calls_Cons)
  next
    case (CallDelete k)
    with Cons.prems(3) have s: "sorted (T # readings xs)" by simp
    have "recent (call c x) T"
      unfolding CallDelete call.simps by (rule recent_delete [OF Cons.prems(1,2)])
    from Cons.IH [OF wf' this s] show ?thesis by (simp add: calls_Cons)
  next
    case CallClear
    with Cons.prems(3) have s: "sorted (T # readings xs)" by simp
    have "recent (call c x) T"
      unfolding CallClear call.simps by (simp add: recent_def LRUCache_clear_def)
    from Cons.IH [OF wf' this s] show ?thesis by (simp add: calls_Cons)
  qed
qed

lemma recency_of_run:
  assumes "LRUCache_new options = Inr c0" and "sorted (readings xs)"
  shows "sorted_wrt (\<lambda>a b. accessedAt (calls c0 xs) b \<le> accessedAt (calls c0 xs) a)
           (order (calls c0 xs))"
proof -
  have wf0: "wellFormed c0" using assms(1) by (rule wellFormed_new)
  have o: "order c0 = []" using assms(1) by (auto simp: LRUCache_new_def split: if_splits)
  define T where "T = (case readings xs of [] \<Rightarrow> 0 | t # _ \<Rightarrow> t)"
  have r: "recent c0 T" using o by (simp add: recent_def)
  have s: "sorted (T # readings xs)" using assms(2) by (cases "readings xs") (auto simp: T_def)
  from recent_calls [OF wf0 r s] show ?thesis by (auto simp: recent_def)
qed

lemma oldest_last:
  fixes f :: "'a \<Rightarrow> int"
  assumes "sorted_wrt (\<lambda>a b. f b \<le> f a) xs" and "x \<in> set xs"
  shows "f (last xs) \<le> f x"
  using assms
proof (induction xs)
  case Nil
  then show ?case by simp
next
  case (Cons y ys)
  show ?case
  proof (cases "ys = []")
    case True
    with Cons.prems show ?thesis by simp
  next
    case False
    then have l: "last (y # ys) = last ys" by simp
    have ly: "last ys \<in> set ys" using False by simp
    from Cons.prems show ?thesis
    proof (cases "x = y")
      case True
      with Cons.prems(1) ly l show ?thesis by auto
    next
      case False
      with Cons.prems have "x \<in> set ys" "sorted_wrt (\<lambda>a b. f b \<le> f a) ys" by auto
      from Cons.IH [OF this(2,1)] l show ?thesis by simp
    qed
  qed
qed

lemma touched_survives:
  assumes wf: "wellFormed c" and o: "hd (order c) = k" and ne: "order c \<noteq> []"
    and m: "2 \<le> maxSize c" and n: "Map_get (cache c) k' = None"
  shows "Map_get (cache (LRUCache_set c k' v now)) k = Map_get (cache c) k"
proof -
  have kin: "k \<in> set (order c)" using o ne by (metis hd_in_set)
  have kk: "k \<noteq> k'" using kin get_absent(3) [OF wf n] by auto
  let ?n = "\<lparr> key = k', val = v, lastAccessed = now \<rparr>"
  show ?thesis
  proof (cases "length (cache c) < maxSize c")
    case True
    then have "LRUCache_set c k' v now = c\<lparr>cache := Map_set (cache c) k' ?n, order := k' # order c\<rparr>"
      using set_new [OF wf n, of v now] by (simp add: Let_def)
    then show ?thesis using kk by (simp add: Map_get_set)
  next
    case False
    then have e: "LRUCache_set c k' v now
        = c\<lparr>cache := Map_delete (Map_set (cache c) k' ?n) (last (order c)),
            order := k' # butlast (order c)\<rparr>"
      using set_new [OF wf n, of v now] by (simp add: Let_def)
    have "length (order c) = maxSize c" using False wf length_order [of c] by (simp add: wellFormed_def)
    then have l2: "2 \<le> length (order c)" using m by simp
    have d: "distinct (order c)" using wf by (simp add: wellFormed_def)
    obtain y ys where ys: "order c = k # y # ys"
      using l2 o by (cases "order c"; cases "tl (order c)") auto
    then have "last (order c) = last (y # ys)" by simp
    then have "last (order c) \<in> set (y # ys)" using last_in_set [of "y # ys"] by simp
    then have "last (order c) \<noteq> k" using d ys by auto
    then show ?thesis using kk by (simp add: e Map_get_delete Map_get_set)
  qed
qed

lemma touch_set:
  assumes wf: "wellFormed c" and g: "Map_get (cache c) k = Some node"
  shows "order (LRUCache_set c k v now) = k # remove1 k (order c)"
    and "fst ` set (cache (LRUCache_set c k v now)) = fst ` set (cache c)"
    and "Map_get (cache (LRUCache_set c k v now)) k = Some (node\<lparr>lastAccessed := now\<rparr>)"
    and "k' \<noteq> k \<Longrightarrow> Map_get (cache (LRUCache_set c k v now)) k' = Map_get (cache c) k'"
proof -
  have e: "LRUCache_set c k v now
      = moveToFront (c\<lparr>cache := Map_set (cache c) k (node\<lparr>lastAccessed := now\<rparr>)\<rparr>) k"
    using wf g by (rule set_existing)
  have kin: "k \<in> fst ` set (cache c)" using g Map_get_None_iff [of "cache c" k] by auto
  show "order (LRUCache_set c k v now) = k # remove1 k (order c)"
    by (simp add: e moveToFront_def addToFront_def removeNode_def)
  show "fst ` set (cache (LRUCache_set c k v now)) = fst ` set (cache c)"
    using kin by (simp add: e moveToFront_def addToFront_def removeNode_def set_keys_Map_set
        insert_absorb)
  show "Map_get (cache (LRUCache_set c k v now)) k = Some (node\<lparr>lastAccessed := now\<rparr>)"
    by (simp add: e moveToFront_def addToFront_def removeNode_def Map_get_set)
  show "k' \<noteq> k \<Longrightarrow> Map_get (cache (LRUCache_set c k v now)) k' = Map_get (cache c) k'"
    by (simp add: e moveToFront_def addToFront_def removeNode_def Map_get_set)
qed

lemma touch_get:
  assumes wf: "wellFormed c" and g: "Map_get (cache c) k = Some node"
    and live: "\<not> ttlExpired (ttl c) now (lastAccessed node)"
  shows "order (fst (LRUCache_get c k now)) = k # remove1 k (order c)"
    and "fst ` set (cache (fst (LRUCache_get c k now))) = fst ` set (cache c)"
    and "Map_get (cache (fst (LRUCache_get c k now))) k = Some (node\<lparr>lastAccessed := now\<rparr>)"
    and "k' \<noteq> k \<Longrightarrow> Map_get (cache (fst (LRUCache_get c k now))) k' = Map_get (cache c) k'"
proof -
  note e = cache_get_live [OF g live]
  have kin: "k \<in> fst ` set (cache c)" using g Map_get_None_iff [of "cache c" k] by auto
  show "order (fst (LRUCache_get c k now)) = k # remove1 k (order c)"
    by (rule get_live(3) [OF wf g live])
  show "fst ` set (cache (fst (LRUCache_get c k now))) = fst ` set (cache c)"
    using kin by (simp add: e set_keys_Map_set insert_absorb)
  show "Map_get (cache (fst (LRUCache_get c k now))) k = Some (node\<lparr>lastAccessed := now\<rparr>)"
    by (simp add: e Map_get_set)
  show "k' \<noteq> k \<Longrightarrow> Map_get (cache (fst (LRUCache_get c k now))) k' = Map_get (cache c) k'"
    by (simp add: e Map_get_set)
qed

lemma read_then_insert:
  assumes wf: "wellFormed c" and m: "2 \<le> maxSize c" and n: "Map_get (cache c) k' = None"
    and g: "Map_get (cache c) k = Some node"
  shows "\<not> ttlExpired (ttl c) now (lastAccessed node) \<Longrightarrow>
         Map_get (cache (LRUCache_set (fst (LRUCache_get c k now)) k' v' now')) k
           = Some (node\<lparr>lastAccessed := now\<rparr>)"
    and "Map_get (cache (LRUCache_set (LRUCache_set c k v now) k' v' now')) k
           = Some (node\<lparr>lastAccessed := now\<rparr>)"
proof -
  have kk: "k' \<noteq> k" using n g by auto
  {
    assume live: "\<not> ttlExpired (ttl c) now (lastAccessed node)"
    let ?c = "fst (LRUCache_get c k now)"
    have wf1: "wellFormed ?c" using wf by (rule wellFormed_get)
    have o: "hd (order ?c) = k" "order ?c \<noteq> []" using touch_get(1) [OF wf g live] by simp_all
    have m1: "2 \<le> maxSize ?c" using m by (simp add: LRUCache_get_def moveToFront_def
          addToFront_def removeNode_def Let_def split: option.splits)
    have n1: "Map_get (cache ?c) k' = None" using touch_get(4) [OF wf g live kk] n by simp
    from touched_survives [OF wf1 o m1 n1, of v' now'] touch_get(3) [OF wf g live]
    show "Map_get (cache (LRUCache_set ?c k' v' now')) k = Some (node\<lparr>lastAccessed := now\<rparr>)"
      by simp
  }
  let ?c = "LRUCache_set c k v now"
  have wf1: "wellFormed ?c" using wf by (rule wellFormed_set)
  have o: "hd (order ?c) = k" "order ?c \<noteq> []" using touch_set(1) [OF wf g, of v now] by simp_all
  have m1: "2 \<le> maxSize ?c" using m by simp
  have n1: "Map_get (cache ?c) k' = None" using touch_set(4) [OF wf g kk, of v now] n by simp
  from touched_survives [OF wf1 o m1 n1, of v' now'] touch_set(3) [OF wf g, of v now]
  show "Map_get (cache (LRUCache_set ?c k' v' now')) k = Some (node\<lparr>lastAccessed := now\<rparr>)"
    by simp
qed

text \<open>
  Claim C4. Take a cache constructed with capacity \<open>maxSize\<close> and let \<open>c\<close> be its state
  after any sequence of \<open>set\<close>, \<open>get\<close>, \<open>has\<close>, \<open>delete\<close> and \<open>clear\<close> calls. Then
  \<open>size()\<close> is at most \<open>maxSize\<close>; after \<open>set\<close> calls on \<open>maxSize + n\<close> distinct keys
  (\<open>n \<ge> 1\<close>) exactly \<open>maxSize\<close> entries remain, the last \<open>maxSize\<close> keys of the run, most
  recent first; and one insertion of a new key into a full cache evicts exactly the
  entry at the end of the recency list. That list holds each key of the map once. A
  \<open>set\<close> of a key the cache holds and a \<open>get\<close> that returns a value are uses: they move
  the key to the front of the list and leave the other keys in their order, and in a
  cache of capacity two or more the entry used last survives the next insertion of a
  new key. A \<open>has\<close> that returns true changes nothing. Whenever the clock readings of
  the calls never decrease, the list is ordered by the time of last use
  (\<open>lastAccessed\<close>), so that the entry at its end, the one an insertion evicts, is one
  used least recently.
\<close>

theorem size_never_exceeds_maxSize:
  assumes "LRUCache_new options = Inr c0" and "c = calls c0 xs"
  shows "optMaxSize options = Finite (of_nat (maxSize c0))
     \<and> LRUCache_size c \<le> maxSize c0
     \<and> (distinct (map fst kvs) \<and> length kvs = maxSize c0 + n \<and> 1 \<le> n \<longrightarrow>
          LRUCache_size (calls c (setCalls kvs)) = maxSize c0
          \<and> order (calls c (setCalls kvs)) = rev (drop n (map fst kvs))
          \<and> fst ` set (cache (calls c (setCalls kvs))) = set (drop n (map fst kvs)))
     \<and> (LRUCache_size c = maxSize c0 \<and> Map_get (cache c) k = None \<longrightarrow>
          order (LRUCache_set c k v now) = k # butlast (order c)
          \<and> last (order c) \<in> fst ` set (cache c)
          \<and> fst ` set (cache (LRUCache_set c k v now))
               = insert k (fst ` set (cache c)) - {last (order c)})
     \<and> distinct (order c)
     \<and> set (order c) = fst ` set (cache c)
     \<and> (\<forall>node. Map_get (cache c) k = Some node \<longrightarrow>
          order (LRUCache_set c k v now) = k # remove1 k (order c)
          \<and> fst ` set (cache (LRUCache_set c k v now)) = fst ` set (cache c))
     \<and> (\<forall>node. Map_get (cache c) k = Some node
                 \<and> \<not> ttlExpired (ttl c) now (lastAccessed node) \<longrightarrow>
          order (fst (LRUCache_get c k now)) = k # remove1 k (order c)
          \<and> fst ` set (cache (fst (LRUCache_get c k now))) = fst ` set (cache c))
     \<and> (snd (LRUCache_has c k now) \<longrightarrow> fst (LRUCache_has c k now) = c)
     \<and> (\<forall>node. 2 \<le> maxSize c0 \<and> Map_get (cache c) k' = None
                 \<and> Map_get (cache c) k = Some node \<longrightarrow>
          (\<not> ttlExpired (ttl c) now (lastAccessed node) \<longrightarrow>
             Map_get (cache (LRUCache_set (fst (LRUCache_get c k now)) k' v' now')) k
               = Some (node\<lparr>lastAccessed := now\<rparr>))
          \<and> Map_get (cache (LRUCache_set (LRUCache_set c k v now) k' v' now')) k
               = Some (node\<lparr>lastAccessed := now\<rparr>))
     \<and> (sorted (readings xs) \<longrightarrow>
          sorted_wrt (\<lambda>a b. accessedAt c b \<le> accessedAt c a) (order c)
          \<and> (\<forall>x \<in> set (order c). accessedAt c (last (order c)) \<le> accessedAt c x))"
proof -
  have wf0: "wellFormed c0" using assms(1) by (rule wellFormed_new)
  then have wf: "wellFormed c" unfolding assms(2) by (rule wellFormed_calls)
  have m: "maxSize c = maxSize c0" by (simp add: assms(2))
  have p1: "optMaxSize options = Finite (of_nat (maxSize c0))"
    using new_fields [OF assms(1)] by simp
  have p2: "LRUCache_size c \<le> maxSize c0"
    using size_le_maxSize [OF wf] m by simp
  have p3: "distinct (map fst kvs) \<and> length kvs = maxSize c0 + n \<and> 1 \<le> n \<longrightarrow>
          LRUCache_size (calls c (setCalls kvs)) = maxSize c0
          \<and> order (calls c (setCalls kvs)) = rev (drop n (map fst kvs))
          \<and> fst ` set (cache (calls c (setCalls kvs))) = set (drop n (map fst kvs))"
    using insert_over_capacity [OF wf, of kvs n] m by simp
  have p4: "LRUCache_size c = maxSize c0 \<and> Map_get (cache c) k = None \<longrightarrow>
          order (LRUCache_set c k v now) = k # butlast (order c)
          \<and> last (order c) \<in> fst ` set (cache c)
          \<and> fst ` set (cache (LRUCache_set c k v now))
               = insert k (fst ` set (cache c)) - {last (order c)}"
    using evict_step(1) [OF wf, of k v now] evict_step(2) [OF wf, of k v now]
      evict_step(3) [OF wf, of k] m by simp
  have p5: "distinct (order c)" using wf by (simp add: wellFormed_def)
  have p6: "set (order c) = fst ` set (cache c)" using wf by (simp add: wellFormed_def)
  have p7: "\<forall>node. Map_get (cache c) k = Some node \<longrightarrow>
          order (LRUCache_set c k v now) = k # remove1 k (order c)
          \<and> fst ` set (cache (LRUCache_set c k v now)) = fst ` set (cache c)"
    using touch_set(1) [OF wf, of k _ v now] touch_set(2) [OF wf, of k _ v now] by blast
  have p8: "\<forall>node. Map_get (cache c) k = Some node
                 \<and> \<not> ttlExpired (ttl c) now (lastAccessed node) \<longrightarrow>
          order (fst (LRUCache_get c k now)) = k # remove1 k (order c)
          \<and> fst ` set (cache (fst (LRUCache_get c k now))) = fst ` set (cache c)"
    using touch_get(1) [OF wf, of k _ now] touch_get(2) [OF wf, of k _ now] by blast
  have p9: "snd (LRUCache_has c k now) \<longrightarrow> fst (LRUCache_has c k now) = c"
    using has_frame [OF wf, of k now] by blast
  have p10: "\<forall>node. 2 \<le> maxSize c0 \<and> Map_get (cache c) k' = None
                 \<and> Map_get (cache c) k = Some node \<longrightarrow>
          (\<not> ttlExpired (ttl c) now (lastAccessed node) \<longrightarrow>
             Map_get (cache (LRUCache_set (fst (LRUCache_get c k now)) k' v' now')) k
               = Some (node\<lparr>lastAccessed := now\<rparr>))
          \<and> Map_get (cache (LRUCache_set (LRUCache_set c k v now) k' v' now')) k
               = Some (node\<lparr>lastAccessed := now\<rparr>)"
  proof (intro allI impI)
    fix node
    assume h: "2 \<le> maxSize c0 \<and> Map_get (cache c) k' = None \<and> Map_get (cache c) k = Some node"
    then have h1: "2 \<le> maxSize c" and h2: "Map_get (cache c) k' = None"
      and h3: "Map_get (cache c) k = Some node" using m by simp_all
    from read_then_insert(1) [OF wf h1 h2 h3, of now v' now']
      read_then_insert(2) [OF wf h1 h2 h3, of v now v' now']
    show "(\<not> ttlExpired (ttl c) now (lastAccessed node) \<longrightarrow>
             Map_get (cache (LRUCache_set (fst (LRUCache_get c k now)) k' v' now')) k
               = Some (node\<lparr>lastAccessed := now\<rparr>))
          \<and> Map_get (cache (LRUCache_set (LRUCache_set c k v now) k' v' now')) k
               = Some (node\<lparr>lastAccessed := now\<rparr>)" by blast
  qed
  have p11: "sorted (readings xs) \<longrightarrow>
          sorted_wrt (\<lambda>a b. accessedAt c b \<le> accessedAt c a) (order c)
          \<and> (\<forall>x \<in> set (order c). accessedAt c (last (order c)) \<le> accessedAt c x)"
  proof
    assume "sorted (readings xs)"
    from recency_of_run [OF assms(1) this]
    have s: "sorted_wrt (\<lambda>a b. accessedAt c b \<le> accessedAt c a) (order c)"
      by (simp add: assms(2))
    then show "sorted_wrt (\<lambda>a b. accessedAt c b \<le> accessedAt c a) (order c)
          \<and> (\<forall>x \<in> set (order c). accessedAt c (last (order c)) \<le> accessedAt c x)"
      using oldest_last [of "accessedAt c" "order c"] by blast
  qed
  from p1 p2 p3 p4 p5 p6 p7 p8 p9 p10 p11 show ?thesis by - (intro conjI, assumption+)
qed

text \<open>The theorem at capacity 2: a mixed run of seven calls, three insertions, and a
  \<open>get\<close> between insertions: the entry read is kept and the other one evicted.\<close>

theorem size_never_exceeds_maxSize_witness:
  "LRUCache_new \<lparr> optMaxSize = Finite 2, optTtl = None \<rparr>
     = Inr \<lparr> cache = [], order = [], maxSize = 2, ttl = None \<rparr>
   \<and> LRUCache_size (calls \<lparr> cache = [], order = [], maxSize = 2, ttl = None \<rparr>
        [CallSet ''a'' ''1'' 0, CallSet ''b'' ''2'' 1, CallGet ''a'' 2, CallSet ''c'' ''3'' 3,
         CallHas ''a'' 4, CallDelete ''c'', CallSet ''d'' ''4'' 5]) \<le> 2
   \<and> order (calls \<lparr> cache = [], order = [], maxSize = 2, ttl = None \<rparr>
        (setCalls [(''a'', ''1'', 0), (''b'', ''2'', 1), (''c'', ''3'', 2)])) = [''c'', ''b'']
   \<and> LRUCache_size (calls \<lparr> cache = [], order = [], maxSize = 2, ttl = None \<rparr>
        (setCalls [(''a'', ''1'', 0), (''b'', ''2'', 1), (''c'', ''3'', 2)])) = 2
   \<and> order (calls \<lparr> cache = [], order = [], maxSize = 2, ttl = None \<rparr>
        [CallSet ''a'' ''1'' 0, CallSet ''b'' ''2'' 1, CallGet ''a'' 2, CallSet ''c'' ''3'' 3])
       = [''c'', ''a'']
   \<and> Map_get (cache (calls \<lparr> cache = [], order = [], maxSize = 2, ttl = None \<rparr>
        [CallSet ''a'' ''1'' 0, CallSet ''b'' ''2'' 1, CallGet ''a'' 2, CallSet ''c'' ''3'' 3]))
        ''a'' = Some \<lparr> key = ''a'', val = ''1'', lastAccessed = 2 \<rparr>"
proof -
  let ?c0 = "\<lparr> cache = [], order = [], maxSize = 2, ttl = None \<rparr>"
  let ?ab = "calls ?c0 [CallSet ''a'' ''1'' 0, CallSet ''b'' ''2'' 1]"
  have n: "LRUCache_new \<lparr> optMaxSize = Finite 2, optTtl = None \<rparr> = Inr ?c0"
    by (simp add: LRUCache_new_def)
  have a: "LRUCache_size (calls ?c0
        [CallSet ''a'' ''1'' 0, CallSet ''b'' ''2'' 1, CallGet ''a'' 2, CallSet ''c'' ''3'' 3,
         CallHas ''a'' 4, CallDelete ''c'', CallSet ''d'' ''4'' 5]) \<le> 2"
    using size_never_exceeds_maxSize [OF n refl, of
        "[CallSet ''a'' ''1'' 0, CallSet ''b'' ''2'' 1, CallGet ''a'' 2, CallSet ''c'' ''3'' 3,
         CallHas ''a'' 4, CallDelete ''c'', CallSet ''d'' ''4'' 5]"]
    by simp
  have b: "order (calls ?c0 (setCalls [(''a'', ''1'', 0), (''b'', ''2'', 1), (''c'', ''3'', 2)])) = [''c'', ''b'']
     \<and> LRUCache_size (calls ?c0 (setCalls [(''a'', ''1'', 0), (''b'', ''2'', 1), (''c'', ''3'', 2)])) = 2"
    using size_never_exceeds_maxSize [OF n, of ?c0 "[]"
        "[(''a'', ''1'', 0), (''b'', ''2'', 1), (''c'', ''3'', 2)]" 1]
    by (simp add: calls_Nil)
  have s: "cache ?ab = [(''a'', \<lparr> key = ''a'', val = ''1'', lastAccessed = 0 \<rparr>),
                        (''b'', \<lparr> key = ''b'', val = ''2'', lastAccessed = 1 \<rparr>)]"
    "order ?ab = [''b'', ''a'']" "ttl ?ab = None"
    by (simp_all add: cache_eval)
  have g: "Map_get (cache ?ab) ''a'' = Some \<lparr> key = ''a'', val = ''1'', lastAccessed = 0 \<rparr>"
    "Map_get (cache ?ab) ''c'' = None"
    by (simp_all add: s Map_get_def)
  have x: "\<not> ttlExpired (ttl ?ab) 2 (lastAccessed \<lparr> key = ''a'', val = ''1'', lastAccessed = 0 \<rparr>)"
    by (simp add: s ttlExpired_def)
  have r: "calls ?c0 [CallSet ''a'' ''1'' 0, CallSet ''b'' ''2'' 1, CallGet ''a'' 2,
                      CallSet ''c'' ''3'' 3]
      = LRUCache_set (fst (LRUCache_get ?ab ''a'' 2)) ''c'' ''3'' 3"
    by (simp add: calls_Cons calls_Nil)
  have d: "Map_get (cache (LRUCache_set (fst (LRUCache_get ?ab ''a'' 2)) ''c'' ''3'' 3)) ''a''
      = Some \<lparr> key = ''a'', val = ''1'', lastAccessed = 2 \<rparr>"
    using size_never_exceeds_maxSize [OF n, of ?ab
        "[CallSet ''a'' ''1'' 0, CallSet ''b'' ''2'' 1]" _ _ "''a''" _ 2 "''c''" "''3''" 3] g x
    by simp
  have e: "order (LRUCache_set (fst (LRUCache_get ?ab ''a'' 2)) ''c'' ''3'' 3) = [''c'', ''a'']"
    by (simp add: cache_eval)
  show ?thesis using n a b d e unfolding r by simp
qed

section \<open>DER encoding: lengths\<close>

lemma toInt32_id: "0 \<le> t \<Longrightarrow> t < 2 ^ 31 \<Longrightarrow> toInt32 t = t"
  by (simp add: toInt32_def)

lemma and_ff: "(t::int) AND 0xff = t mod 256"
proof -
  have "(0xff::int) = mask 8" by (simp add: mask_eq_exp_minus_1)
  then have "t AND 0xff = take_bit 8 t" by (simp add: take_bit_eq_mask)
  then show ?thesis by (simp add: take_bit_eq_mod)
qed

lemma lengthBytes_step:
  assumes "0 < temp" and "temp < 2 ^ 31"
  shows "lengthBytes temp bytes = lengthBytes (temp div 256) ((temp mod 256) # bytes)"
proof -
  have id: "toInt32 temp = temp" using assms by (simp add: toInt32_id)
  have d: "drop_bit 8 temp = temp div 256" by (simp add: drop_bit_eq_div)
  show ?thesis
    by (subst lengthBytes.simps) (simp only: assms(1) id d and_ff if_True)
qed

lemma lengthBytes_be:
  "0 \<le> t \<Longrightarrow> t < 2 ^ 31 \<Longrightarrow> lengthBytes t acc = map int (beBytes (nat t)) @ acc"
proof (induction "nat t" arbitrary: t acc rule: less_induct)
  case less
  show ?case
  proof (cases "t > 0")
    case False
    with less.prems have "t = 0" by simp
    then show ?thesis by (simp add: beBytes.simps lengthBytes.simps)
  next
    case True
    have b1: "0 \<le> t div 256" and b2: "t div 256 < 2 ^ 31" using less.prems True by auto
    have "nat (t div 256) < nat t" using True by (simp add: nat_less_iff div_less_iff_less_mult) 
    from less.hyps [OF this b1 b2]
    have IH: "lengthBytes (t div 256) ((t mod 256) # acc)
          = map int (beBytes (nat (t div 256))) @ (t mod 256) # acc" .
    have n: "nat t \<noteq> 0" using True by simp
    have "beBytes (nat t) = beBytes (nat t div 256) @ [nat t mod 256]"
      using n beBytes.simps [of "nat t"] by simp
    moreover have "nat t div 256 = nat (t div 256)" using True by (simp add: nat_div_distrib)
    moreover have "int (nat t mod 256) = t mod 256" using True by (simp add: zmod_int)
    ultimately have "map int (beBytes (nat t)) = map int (beBytes (nat (t div 256))) @ [t mod 256]"
      by simp
    with IH lengthBytes_step [OF True less.prems(2), of acc] show ?thesis by simp
  qed
qed

lemma beBytes_0: "beBytes 0 = []"
  by (simp add: beBytes.simps)

lemma beBytes_pos: "0 < n \<Longrightarrow> beBytes n = beBytes (n div 256) @ [n mod 256]"
  by (subst beBytes.simps) simp

lemma beBytes_lt: "x \<in> set (beBytes n) \<Longrightarrow> x < 256"
proof (induction n arbitrary: x rule: less_induct)
  case (less n)
  show ?case
  proof (cases "n = 0")
    case True
    with less.prems show ?thesis by (simp add: beBytes_0)
  next
    case False
    then have e: "beBytes n = beBytes (n div 256) @ [n mod 256]" by (simp add: beBytes_pos)
    have d: "n div 256 < n" using False by simp
    from less.prems have "x \<in> set (beBytes (n div 256)) \<or> x = n mod 256" unfolding e by auto
    then show ?thesis using less.IH [OF d] by auto
  qed
qed

lemma beBytes_value: "foldl (\<lambda>a b. a * 256 + b) 0 (beBytes n) = n"
proof (induction n rule: less_induct)
  case (less n)
  show ?case
  proof (cases "n = 0")
    case True
    then show ?thesis by (simp add: beBytes_0)
  next
    case False
    then have e: "beBytes n = beBytes (n div 256) @ [n mod 256]" by (simp add: beBytes_pos)
    have d: "n div 256 < n" using False by simp
    show ?thesis unfolding e using less.IH [OF d] by simp
  qed
qed

lemma beBytes_length: "n < 256 ^ k \<Longrightarrow> length (beBytes n) \<le> k"
proof (induction k arbitrary: n)
  case 0
  then show ?case by (simp add: beBytes_0)
next
  case (Suc k)
  show ?case
  proof (cases "n = 0")
    case True
    then show ?thesis by (simp add: beBytes_0)
  next
    case False
    then have e: "beBytes n = beBytes (n div 256) @ [n mod 256]" by (simp add: beBytes_pos)
    have "n div 256 < 256 ^ k" using Suc.prems by (simp add: less_mult_imp_div_less mult.commute)
    from Suc.IH [OF this] show ?thesis unfolding e by simp
  qed
qed

lemma beBytes_hd: "0 < n \<Longrightarrow> beBytes n \<noteq> [] \<and> hd (beBytes n) \<noteq> 0"
proof (induction n rule: less_induct)
  case (less n)
  have e: "beBytes n = beBytes (n div 256) @ [n mod 256]" using less.prems by (rule beBytes_pos)
  show ?case
  proof (cases "n div 256 = 0")
    case True
    then have "n mod 256 = n" by (simp add: div_eq_0_iff)
    with less.prems True e show ?thesis by (simp add: beBytes_0)
  next
    case False
    then have "n div 256 < n" "0 < n div 256" using less.prems by simp_all
    from less.IH [OF this] have "beBytes (n div 256) \<noteq> []" "hd (beBytes (n div 256)) \<noteq> 0"
      by simp_all
    then show ?thesis unfolding e by simp
  qed
qed

lemma beValue_bytes:
  "\<forall>x \<in> set xs. x < 256 \<Longrightarrow>
   foldl (\<lambda>a b. a * 256 + unat b) a0 (map of_int (map int xs) :: 8 word list)
     = foldl (\<lambda>a b. a * 256 + b) a0 xs"
  by (induction xs arbitrary: a0) (simp_all add: unat_of_nat)

lemma beValue_beBytes: "beValue (map of_int (map int (beBytes n))) = n"
  unfolding beValue_def using beValue_bytes [of "beBytes n" 0] beBytes_lt [of _ n]
  by (simp add: beBytes_value)

lemma header_byte:
  assumes "1 \<le> k" and "k \<le> 4"
  shows "\<not> (of_int (0x80 OR int k) :: 8 word) < 0x80"
    and "unat ((of_int (0x80 OR int k) :: 8 word) AND 0x7f) = k"
proof -
  from assms have c: "k = 1 \<or> k = 2 \<or> k = 3 \<or> k = 4" by auto
  have e: "(0x80::int) OR 1 = 129" "(0x80::int) OR 2 = 130" "(0x80::int) OR 3 = 131"
    "(0x80::int) OR 4 = 132" by simp_all
  from c e show "\<not> (of_int (0x80 OR int k) :: 8 word) < 0x80" by auto
  from c e show "unat ((of_int (0x80 OR int k) :: 8 word) AND 0x7f) = k" by auto
qed

lemma encodeLength_short: "n < 0x80 \<Longrightarrow> encodeLength n = [of_nat n]"
  by (simp add: encodeLength_def)

lemma encodeLength_long:
  assumes "0x80 \<le> n" and "n < 2 ^ 31"
  shows "encodeLength n
     = of_int (0x80 OR int (length (beBytes n))) # map of_int (map int (beBytes n))"
proof -
  have "lengthBytes (int n) [] = map int (beBytes n)"
    using lengthBytes_be [of "int n" "[]"] assms(2) by simp
  with assms(1) show ?thesis by (simp add: encodeLength_def Let_def)
qed

lemma beBytes_count:
  assumes "0x80 \<le> n" and "n < 2 ^ 31"
  shows "1 \<le> length (beBytes n)" and "length (beBytes n) \<le> 4"
proof -
  have "0 < n" using assms(1) by simp
  from beBytes_hd [OF this] show "1 \<le> length (beBytes n)"
    by (cases "beBytes n") simp_all
  have "n < 256 ^ 4" using assms(2) by simp
  then show "length (beBytes n) \<le> 4" by (rule beBytes_length)
qed

lemma length_encodeLength: "n < 2 ^ 31 \<Longrightarrow> length (encodeLength n) \<le> 5"
proof (cases "n < 0x80")
  case True
  then show ?thesis by (simp add: encodeLength_short)
next
  case False
  assume "n < 2 ^ 31"
  with False beBytes_count(2) [of n] show ?thesis by (simp add: encodeLength_long)
qed

lemma derLength_encodeLength:
  assumes "n < 2 ^ 31"
  shows "derLength (encodeLength n @ rest) = Some (n, rest)"
proof (cases "n < 0x80")
  case True
  then have "(of_nat n :: 8 word) < 0x80" by (simp add: word_less_nat_alt unat_of_nat)
  with True show ?thesis by (simp add: encodeLength_short unat_of_nat)
next
  case False
  then have ge: "0x80 \<le> n" by simp
  define bs :: "8 word list" where "bs = map of_int (map int (beBytes n))"
  define k where "k = length (beBytes n)"
  define hb :: "8 word" where "hb = of_int (0x80 OR int k)"
  have k: "1 \<le> k" "k \<le> 4" using beBytes_count [OF ge assms] by (simp_all add: k_def)
  have lbs: "length bs = k" by (simp add: bs_def k_def)
  have ne: "beBytes n \<noteq> []" "hd (beBytes n) \<noteq> 0" using beBytes_hd [of n] ge by auto
  then have "hd (beBytes n) \<in> set (beBytes n)" by simp
  then have lt: "hd (beBytes n) < 256" by (rule beBytes_lt)
  have "hd bs = of_nat (hd (beBytes n))" using ne(1) by (simp add: bs_def hd_map)
  then have "unat (hd bs) = hd (beBytes n)" using lt by (simp add: unat_of_nat)
  then have "hd bs \<noteq> 0" using ne(2) by auto
  moreover have "bs \<noteq> []" using ne(1) by (simp add: bs_def)
  ultimately have hd0: "hd (bs @ rest) \<noteq> 0" by simp
  have tk: "take k (bs @ rest) = bs" "drop k (bs @ rest) = rest" using lbs by simp_all
  have v: "beValue bs = n" unfolding bs_def by (rule beValue_beBytes)
  have c1: "(hb < 0x80) = False" using header_byte(1) [OF k] by (simp add: hb_def)
  have c2: "unat (hb AND 0x7f) = k" using header_byte(2) [OF k] by (simp add: hb_def)
  have c3: "(k = 0 \<or> length (bs @ rest) < k) = False" using k lbs by simp
  have c4: "(hd (bs @ rest) = 0 \<or> beValue (take k (bs @ rest)) < 0x80) = False"
    using hd0 tk v ge by simp
  have c5: "(hd (bs @ rest) = 0 \<or> n < 0x80) = False" using hd0 ge by simp
  have "derLength (hb # (bs @ rest)) = Some (n, rest)"
    by (simp only: derLength.simps c1 c2 c3 c4 c5 tk v if_False Let_def)
  moreover have "encodeLength n = hb # bs"
    using encodeLength_long [OF ge assms] by (simp add: hb_def bs_def k_def)
  ultimately show ?thesis by simp
qed

section \<open>DER encoding: the round trip through the reader\<close>

lemma derTLV_encoded:
  assumes "length c < 2 ^ 31"
  shows "derTLV tag (tag # encodeLength (length c) @ c @ rest) = Some (c, rest)"
  using derLength_encodeLength [OF assms, of "c @ rest"] by (simp add: derTLV_def)

lemma beValue_Cons: "beValue (b # bs) = unat b * 256 ^ length bs + beValue bs"
proof -
  have "\<And>a. foldl (\<lambda>a b. a * 256 + unat b) a bs = a * 256 ^ length bs + beValue bs"
  proof (induction bs)
    case Nil
    show ?case by (simp add: beValue_def)
  next
    case (Cons x xs)
    show ?case
      using Cons [of "a * 256 + unat x"] Cons [of "unat x"]
      by (simp add: beValue_def algebra_simps)
  qed
  from this [of "unat b"] show ?thesis by (simp add: beValue_def)
qed

lemma beValue_zero_Cons: "beValue (0 # bs) = beValue bs"
  by (simp add: beValue_Cons)

lemma encodeInteger_padded:
  "encodeInteger bytes = 0x02 # encodeLength (length (paddedBytes bytes)) @ paddedBytes bytes"
  by (cases bytes) (simp_all add: encodeInteger_def paddedBytes_def Let_def)

lemma derInteger_padded:
  "derInteger (paddedBytes bytes)
     = (if minimalBytes bytes then Some (int (beValue bytes)) else None)"
proof (cases bytes)
  case Nil
  then show ?thesis by (simp add: derInteger_def paddedBytes_def minimalBytes_def)
next
  case (Cons b rest)
  show ?thesis
  proof (cases "b \<ge> 0x80")
    case True
    then have "b \<noteq> 0" by auto
    with True Cons show ?thesis
      by (cases rest)
        (simp_all add: derInteger_def paddedBytes_def minimalBytes_def redundantLead_def
          beValue_zero_Cons)
  next
    case False
    then have "b \<noteq> 0xff" by auto
    with False Cons show ?thesis
      by (cases rest)
        (simp_all add: derInteger_def paddedBytes_def minimalBytes_def redundantLead_def)
  qed
qed

lemma derInteger_unpadded:
  "bytes \<noteq> [] \<Longrightarrow> hd bytes \<ge> 0x80 \<Longrightarrow>
   derInteger bytes = None \<or> derInteger bytes = Some (int (beValue bytes) - 256 ^ length bytes)"
  by (cases bytes) (auto simp: derInteger_def)

lemma length_paddedBytes: "length (paddedBytes bytes) \<le> Suc (length bytes)"
  by (simp add: paddedBytes_def)

lemma length_encodeInteger:
  "length bytes < 2 ^ 30 \<Longrightarrow> length (encodeInteger bytes) \<le> length bytes + 7"
proof -
  assume a: "length bytes < 2 ^ 30"
  have "length (paddedBytes bytes) < 2 ^ 31" using a length_paddedBytes [of bytes] by simp
  from length_encodeLength [OF this] length_paddedBytes [of bytes] show ?thesis
    by (simp add: encodeInteger_padded)
qed

lemma derTLV_encodeInteger:
  assumes "length bytes < 2 ^ 30"
  shows "derTLV 0x02 (encodeInteger bytes @ rest) = Some (paddedBytes bytes, rest)"
proof -
  have "length (paddedBytes bytes) < 2 ^ 31" using assms length_paddedBytes [of bytes] by simp
  from derTLV_encoded [OF this, of 2 rest] show ?thesis by (simp add: encodeInteger_padded)
qed

lemma rsaOID_TLV:
  "derTLV 0x30 (rsaOID @ rest)
     = Some ([0x06, 0x09, 0x2a, 0x86, 0x48, 0x86, 0xf7, 0x0d, 0x01, 0x01, 0x01, 0x05, 0x00], rest)"
  by (simp add: derTLV_def rsaOID_def)

lemma parseSPKI_createRSAPublicKeyDER:
  assumes "length nBytes + length eBytes < 2 ^ 30"
  shows "parseSPKI (createRSAPublicKeyDER nBytes eBytes)
           = (if minimalBytes nBytes \<and> minimalBytes eBytes
              then Some (int (beValue nBytes), int (beValue eBytes)) else None)"
proof -
  define nInteger where "nInteger = encodeInteger nBytes"
  define eInteger where "eInteger = encodeInteger eBytes"
  define sequence where "sequence = nInteger @ eInteger"
  define rsaSequence where "rsaSequence = 0x30 # encodeLength (length sequence) @ sequence"
  define bits where "bits = 0x00 # rsaSequence"
  define bitString where "bitString = 0x03 # encodeLength (length bits) @ bits"
  define finalSequence where "finalSequence = rsaOID @ bitString"
  have ln: "length nBytes < 2 ^ 30" and le: "length eBytes < 2 ^ 30" using assms by simp_all
  have l1: "length sequence \<le> length nBytes + length eBytes + 14"
    using length_encodeInteger [OF ln] length_encodeInteger [OF le]
    by (simp add: sequence_def nInteger_def eInteger_def)
  then have s31: "length sequence < 2 ^ 31" using assms by simp
  have l2: "length rsaSequence \<le> length sequence + 6"
    using length_encodeLength [OF s31] by (simp add: rsaSequence_def)
  then have b31: "length bits < 2 ^ 31" using l1 assms by (simp add: bits_def)
  have l3: "length bitString \<le> length bits + 6"
    using length_encodeLength [OF b31] by (simp add: bitString_def)
  have "length rsaOID = 15" by (simp add: rsaOID_def)
  then have f31: "length finalSequence < 2 ^ 31"
    using l1 l2 l3 assms by (simp add: finalSequence_def bits_def)
  have der: "createRSAPublicKeyDER nBytes eBytes
      = 0x30 # encodeLength (length finalSequence) @ finalSequence @ []"
    by (simp add: createRSAPublicKeyDER_def Let_def finalSequence_def bitString_def bits_def
        rsaSequence_def sequence_def nInteger_def eInteger_def)
  have t0: "derTLV 0x30 (createRSAPublicKeyDER nBytes eBytes) = Some (finalSequence, [])"
    unfolding der using f31 by (rule derTLV_encoded)
  have t1: "derTLV 0x30 finalSequence
      = Some ([0x06, 0x09, 0x2a, 0x86, 0x48, 0x86, 0xf7, 0x0d, 0x01, 0x01, 0x01, 0x05, 0x00],
              bitString)"
    unfolding finalSequence_def by (rule rsaOID_TLV)
  have t2: "derTLV 0x03 bitString = Some (bits, [])"
    using derTLV_encoded [OF b31, of 3 "[]"] by (simp add: bitString_def)
  have t3: "derTLV 0x30 rsaSequence = Some (sequence, [])"
    using derTLV_encoded [OF s31, of "0x30" "[]"] by (simp add: rsaSequence_def)
  have t4: "derTLV 0x02 sequence = Some (paddedBytes nBytes, eInteger)"
    unfolding sequence_def nInteger_def using ln by (rule derTLV_encodeInteger)
  have t5: "derTLV 0x02 eInteger = Some (paddedBytes eBytes, [])"
    using derTLV_encodeInteger [OF le, of "[]"] by (simp add: eInteger_def)
  show ?thesis
    by (simp add: parseSPKI_def t0 t1 t2 t3 t4 t5 bits_def derInteger_padded rsaOID_def)
qed

section \<open>DER encoding: sign padding, length forms and the round trip\<close>

lemma encodeLength_long_form:
  assumes "0x80 \<le> n" and "n < 2 ^ 31"
  shows "\<exists>h bs. encodeLength n = h # bs \<and> 0x80 \<le> h \<and> unat (h AND 0x7f) = length bs
           \<and> 1 \<le> length bs \<and> length bs \<le> 4 \<and> hd bs \<noteq> 0 \<and> beValue bs = n"
proof -
  define bs :: "8 word list" where "bs = map of_int (map int (beBytes n))"
  define k where "k = length (beBytes n)"
  define h :: "8 word" where "h = of_int (0x80 OR int k)"
  have k: "1 \<le> k" "k \<le> 4" using beBytes_count [OF assms] by (simp_all add: k_def)
  have lbs: "length bs = k" by (simp add: bs_def k_def)
  have e: "encodeLength n = h # bs"
    using encodeLength_long [OF assms] by (simp add: h_def bs_def k_def)
  have d: "derLength (encodeLength n @ []) = Some (n, [])"
    using assms(2) by (rule derLength_encodeLength)
  have c1: "\<not> h < 0x80" using header_byte(1) [OF k] by (simp add: h_def)
  have c2: "unat (h AND 0x7f) = k" using header_byte(2) [OF k] by (simp add: h_def)
  have ne: "beBytes n \<noteq> []" "hd (beBytes n) \<noteq> 0" using beBytes_hd [of n] assms(1) by auto
  then have "hd (beBytes n) \<in> set (beBytes n)" by simp
  then have lt: "hd (beBytes n) < 256" by (rule beBytes_lt)
  have "hd bs = of_nat (hd (beBytes n))" using ne(1) by (simp add: bs_def hd_map)
  then have "unat (hd bs) = hd (beBytes n)" using lt by (simp add: unat_of_nat)
  then have hd0: "hd bs \<noteq> 0" using ne(2) by auto
  have v: "beValue bs = n" unfolding bs_def by (rule beValue_beBytes)
  from e c1 c2 k lbs hd0 v show ?thesis by (auto simp: not_less)
qed

text \<open>
  Claim C8, as amended. \<open>encodeInteger\<close> puts exactly one zero byte before the bytes when
  the first byte is \<open>0x80\<close> or more, and none otherwise. \<open>encodeLength\<close> writes a length
  below 128 as that one byte, and a length from 128 on (below \<open>2^31\<close>, beyond which
  JavaScript's 32-bit shift no longer divides) as a byte with the top bit set whose low
  seven bits count the big-endian length bytes that follow, the first of them non-zero;
  200 becomes \<open>0x81 0xC8\<close>. The bytes are copied as they are given: a DER reader gets
  the modulus and the exponent back from the structure \<open>createRSAPublicKeyDER\<close> builds
  exactly when both byte sequences are non-empty and carry no superfluous leading zero
  byte, and rejects the structure otherwise. Without the zero byte an integer whose
  first byte is \<open>0x80\<close> or more would be rejected or read as another (negative) number.
\<close>

theorem der_integer_and_length_encoding:
  "(bytes \<noteq> [] \<and> 0x80 \<le> hd bytes \<longrightarrow>
       encodeInteger bytes = 0x02 # encodeLength (Suc (length bytes)) @ 0 # bytes)
   \<and> (bytes = [] \<or> hd bytes < 0x80 \<longrightarrow>
       encodeInteger bytes = 0x02 # encodeLength (length bytes) @ bytes)
   \<and> (n < 0x80 \<longrightarrow> encodeLength n = [of_nat n])
   \<and> (0x80 \<le> n \<and> n < 2 ^ 31 \<longrightarrow>
       (\<exists>h bs. encodeLength n = h # bs \<and> 0x80 \<le> h \<and> unat (h AND 0x7f) = length bs
           \<and> 1 \<le> length bs \<and> length bs \<le> 4 \<and> hd bs \<noteq> 0 \<and> beValue bs = n))
   \<and> encodeLength 200 = [0x81, 0xC8]
   \<and> (length nBytes + length eBytes < 2 ^ 30 \<longrightarrow>
       parseSPKI (createRSAPublicKeyDER nBytes eBytes)
         = (if minimalBytes nBytes \<and> minimalBytes eBytes
            then Some (int (beValue nBytes), int (beValue eBytes)) else None))
   \<and> (bytes \<noteq> [] \<and> 0x80 \<le> hd bytes \<longrightarrow> derInteger bytes \<noteq> Some (int (beValue bytes)))"
proof -
  have a: "bytes \<noteq> [] \<and> 0x80 \<le> hd bytes \<longrightarrow>
       encodeInteger bytes = 0x02 # encodeLength (Suc (length bytes)) @ 0 # bytes"
    by (simp add: encodeInteger_padded paddedBytes_def)
  have b: "bytes = [] \<or> hd bytes < 0x80 \<longrightarrow>
       encodeInteger bytes = 0x02 # encodeLength (length bytes) @ bytes"
    by (auto simp: encodeInteger_padded paddedBytes_def)
  have c: "n < 0x80 \<longrightarrow> encodeLength n = [of_nat n]"
    by (simp add: encodeLength_short)
  have d: "0x80 \<le> n \<and> n < 2 ^ 31 \<longrightarrow>
       (\<exists>h bs. encodeLength n = h # bs \<and> 0x80 \<le> h \<and> unat (h AND 0x7f) = length bs
           \<and> 1 \<le> length bs \<and> length bs \<le> 4 \<and> hd bs \<noteq> 0 \<and> beValue bs = n)"
    using encodeLength_long_form [of n] by blast
  have e: "encodeLength 200 = [0x81, 0xC8]" by code_simp
  have f: "length nBytes + length eBytes < 2 ^ 30 \<longrightarrow>
       parseSPKI (createRSAPublicKeyDER nBytes eBytes)
         = (if minimalBytes nBytes \<and> minimalBytes eBytes
            then Some (int (beValue nBytes), int (beValue eBytes)) else None)"
    using parseSPKI_createRSAPublicKeyDER [of nBytes eBytes] by blast
  have g: "bytes \<noteq> [] \<and> 0x80 \<le> hd bytes \<longrightarrow> derInteger bytes \<noteq> Some (int (beValue bytes))"
    using derInteger_unpadded [of bytes] by auto
  from a b c d e f g show ?thesis by blast
qed

text \<open>
  Claim C8 as stated (every byte sequence) fails at the modulus bytes \<open>00 41 41\<close>:
  \<open>encodeInteger\<close> copies the leading zero byte, the INTEGER \<open>02 03 00 41 41\<close> is not
  in its shortest form, and the DER reader rejects the key.
\<close>

theorem der_round_trip_counterexample:
  "encodeInteger [0x00, 0x41, 0x41] = [0x02, 0x03, 0x00, 0x41, 0x41]
   \<and> derInteger [0x00, 0x41, 0x41] = None
   \<and> parseSPKI (createRSAPublicKeyDER [0x00, 0x41, 0x41] [0x01, 0x00, 0x01]) = None"
proof -
  have a: "encodeInteger [0x00, 0x41, 0x41] = [0x02, 0x03, 0x00, 0x41, 0x41]"
    by (simp add: encodeInteger_def encodeLength_def)
  have b: "derInteger [0x00, 0x41, 0x41] = None"
    by (simp add: derInteger_def redundantLead_def)
  have m: "\<not> minimalBytes [0x00, 0x41, 0x41]" by (simp add: minimalBytes_def)
  have c: "parseSPKI (createRSAPublicKeyDER [0x00, 0x41, 0x41] [0x01, 0x00, 0x01]) = None"
    using parseSPKI_createRSAPublicKeyDER [of "[0x00, 0x41, 0x41]" "[0x01, 0x00, 0x01]"] m
    by simp
  show ?thesis using a b c by simp
qed

text \<open>The theorem at two-byte integers with and without the top bit, at length 127, and
  at a 2048-bit modulus whose first byte is \<open>0xC3\<close> with the exponent 65537.\<close>

theorem der_integer_and_length_encoding_witness:
  "encodeInteger [0x80, 0x01] = [0x02, 0x03, 0x00, 0x80, 0x01]
   \<and> encodeInteger [0x7f, 0xff] = [0x02, 0x02, 0x7f, 0xff]
   \<and> encodeLength 127 = [0x7f]
   \<and> parseSPKI (createRSAPublicKeyDER (0xC3 # replicate 255 0x5A) [0x01, 0x00, 0x01])
        = Some (int (beValue (0xC3 # replicate 255 0x5A)), 65537)"
proof -
  have l3: "encodeLength 3 = [3]" and l2: "encodeLength 2 = [2]" by (simp_all add: encodeLength_def)
  have a: "encodeInteger [0x80, 0x01] = [0x02, 0x03, 0x00, 0x80, 0x01]"
    using der_integer_and_length_encoding [of "[0x80, 0x01]"] l3 by simp
  have b: "encodeInteger [0x7f, 0xff] = [0x02, 0x02, 0x7f, 0xff]"
    using der_integer_and_length_encoding [of "[0x7f, 0xff]"] l2 by simp
  have c: "encodeLength 127 = [0x7f]"
    using der_integer_and_length_encoding [of _ 127] by simp
  have v: "beValue [0x01, 0x00, 0x01] = 65537" by (simp add: beValue_def)
  have m: "minimalBytes (0xC3 # replicate 255 0x5A)" "minimalBytes [0x01, 0x00, 0x01]"
    by (simp_all add: minimalBytes_def split: list.splits)
  have d: "parseSPKI (createRSAPublicKeyDER (0xC3 # replicate 255 0x5A) [0x01, 0x00, 0x01])
        = Some (int (beValue (0xC3 # replicate 255 0x5A)), 65537)"
    using der_integer_and_length_encoding [of _ _ "0xC3 # replicate 255 0x5A" "[0x01, 0x00, 0x01]"]
      v m by simp
  show ?thesis using a b c d by simp
qed

section \<open>The client: key conversion and the strength check\<close>

lemma alphabet_no_terminator: "\<forall>c \<in> set base64Alphabet. \<not> isLineTerminator c"
  by (simp add: base64Alphabet_def isLineTerminator_def)

lemma b64_no_terminator: "\<not> isLineTerminator (b64 i)"
proof -
  have "length base64Alphabet = 64" by (simp add: base64Alphabet_def)
  then have "b64 i \<in> set base64Alphabet" by (simp add: b64_def)
  with alphabet_no_terminator show ?thesis by blast
qed

lemma base64Groups_hd:
  "xs \<noteq> [] \<Longrightarrow> base64Groups xs \<noteq> [] \<and> \<not> isLineTerminator (hd (base64Groups xs))"
  by (cases xs rule: base64Groups.cases) (simp_all add: b64_no_terminator)

lemma matchChunks_nonempty:
  "s \<noteq> [] \<Longrightarrow> \<not> isLineTerminator (hd s) \<Longrightarrow> matchChunks s \<noteq> [] \<and> hd (matchChunks s) \<noteq> []"
proof (cases s)
  case Nil
  assume "s \<noteq> []"
  with Nil show ?thesis by simp
next
  case (Cons c cs)
  assume "\<not> isLineTerminator (hd s)"
  with Cons have nt: "\<not> isLineTerminator c" by simp
  show ?thesis
    unfolding Cons by (subst matchChunks.simps, simp add: nt Let_def)+
qed

lemma joinWith_nonempty: "xs \<noteq> [] \<Longrightarrow> hd xs \<noteq> [] \<Longrightarrow> joinWith sep xs \<noteq> []"
  by (cases xs) (simp_all add: joinWith_def)

lemma createRSAPublicKeyDER_nonempty: "createRSAPublicKeyDER nBytes eBytes \<noteq> []"
  by (simp add: createRSAPublicKeyDER_def Let_def)

lemma pemBody_nonempty:
  "joinWith [CHR 0x0A] (matchChunks (arrayBufferToBase64 (createRSAPublicKeyDER nBytes eBytes))) \<noteq> []"
proof -
  have "map unat (createRSAPublicKeyDER nBytes eBytes) \<noteq> []"
    using createRSAPublicKeyDER_nonempty [of nBytes eBytes] by simp
  from base64Groups_hd [OF this]
  have "matchChunks (arrayBufferToBase64 (createRSAPublicKeyDER nBytes eBytes)) \<noteq> []
      \<and> hd (matchChunks (arrayBufferToBase64 (createRSAPublicKeyDER nBytes eBytes))) \<noteq> []"
    unfolding arrayBufferToBase64_def by (intro matchChunks_nonempty) simp_all
  then show ?thesis by (simp add: joinWith_nonempty)
qed

lemma jwkToPem_missing:
  assumes "jwk_n jwk = None \<or> jwk_n jwk = Some [] \<or> jwk_e jwk = None \<or> jwk_e jwk = Some []"
  shows "jwkToPem p jwk = Inl (Error ''Invalid JWK: missing n or e parameters'')"
  using assms by (auto simp: jwkToPem_def split: option.splits)

lemma jwkToPem_undecoded_n:
  assumes "jwk_n jwk = Some n" "n \<noteq> []" "jwk_e jwk = Some e" "e \<noteq> []"
    and "base64urlToArrayBuffer p n = Inl x"
  shows "jwkToPem p jwk = Inl x"
  using assms by (simp add: jwkToPem_def)

lemma jwkToPem_weak:
  assumes "jwk_n jwk = Some n" "n \<noteq> []" "jwk_e jwk = Some e" "e \<noteq> []"
    and "base64urlToArrayBuffer p n = Inr nBuffer" and "length nBuffer * 8 < 2048"
  shows "jwkToPem p jwk = Inl (weakKeyError (length nBuffer * 8))"
  using assms by (simp add: jwkToPem_def Let_def)

lemma jwkToPem_undecoded_e:
  assumes "jwk_n jwk = Some n" "n \<noteq> []" "jwk_e jwk = Some e" "e \<noteq> []"
    and "base64urlToArrayBuffer p n = Inr nBuffer" and "2048 \<le> length nBuffer * 8"
    and "base64urlToArrayBuffer p e = Inl x"
  shows "jwkToPem p jwk = Inl x"
  using assms by (simp add: jwkToPem_def Let_def)

lemma jwkToPem_strong:
  assumes "jwk_n jwk = Some n" "n \<noteq> []" "jwk_e jwk = Some e" "e \<noteq> []"
    and "base64urlToArrayBuffer p n = Inr nBuffer" and "2048 \<le> length nBuffer * 8"
    and "base64urlToArrayBuffer p e = Inr eBuffer"
  shows "jwkToPem p jwk
     = Inr (pemHeader @ [CHR 0x0A]
            @ joinWith [CHR 0x0A]
                (matchChunks (arrayBufferToBase64 (createRSAPublicKeyDER nBuffer eBuffer)))
            @ [CHR 0x0A] @ pemFooter)"
  using assms pemBody_nonempty [of nBuffer eBuffer] by (simp add: jwkToPem_def Let_def)

lemma bitLength_0: "bitLength 0 = 0"
  by (simp add: bitLength.simps)

lemma bitLength_pos: "0 < m \<Longrightarrow> bitLength m = Suc (bitLength (m div 2))"
  by (subst bitLength.simps) simp

lemma bitLength_le: "m < 2 ^ k \<Longrightarrow> bitLength m \<le> k"
proof (induction k arbitrary: m)
  case 0
  then show ?case by (simp add: bitLength_0)
next
  case (Suc k)
  show ?case
  proof (cases "m = 0")
    case True
    then show ?thesis by (simp add: bitLength_0)
  next
    case False
    have "m div 2 < 2 ^ k" using Suc.prems by (simp add: less_mult_imp_div_less mult.commute)
    from Suc.IH [OF this] False show ?thesis by (simp add: bitLength_pos)
  qed
qed

lemma bitLength_power2: "bitLength (2 ^ k) = Suc k"
  by (induction k) (simp_all add: bitLength_pos bitLength_0)

lemma beValue_less: "beValue bs < 256 ^ length bs"
proof (induction bs)
  case Nil
  show ?case by (simp add: beValue_def)
next
  case (Cons b bs)
  have "unat b < 2 ^ LENGTH(8)" by (rule unsigned_less)
  then have "unat b + 1 \<le> 256" by simp
  then have "(unat b + 1) * 256 ^ length bs \<le> 256 * 256 ^ length bs" by (rule mult_le_mono1)
  then have m: "unat b * 256 ^ length bs + 256 ^ length bs \<le> 256 * 256 ^ length bs"
    by (simp add: algebra_simps)
  have "unat b * 256 ^ length bs + beValue bs < unat b * 256 ^ length bs + 256 ^ length bs"
    using Cons by simp
  from this m have "unat b * 256 ^ length bs + beValue bs < 256 * 256 ^ length bs"
    by (rule less_le_trans)
  then show ?case by (simp add: beValue_Cons)
qed

lemma bitLength_beValue: "bitLength (beValue bs) \<le> length bs * 8"
proof -
  have "(256::nat) ^ length bs = 2 ^ (length bs * 8)"
    using power_mult [of "2::nat" 8 "length bs"] by (simp add: mult.commute)
  with beValue_less [of bs] have "beValue bs < 2 ^ (length bs * 8)" by simp
  then show ?thesis by (rule bitLength_le)
qed

lemma beValue_zeros: "beValue (replicate k 0) = 0"
  by (induction k) (simp_all add: beValue_zero_Cons beValue_def)

lemma beValue_one_zeros: "beValue (1 # replicate k 0) = 2 ^ (8 * k)"
  using power_mult [of "2::nat" 8 k] by (simp add: beValue_Cons beValue_zeros)

text \<open>
  Claim C7, as amended. For a JWK whose \<open>n\<close> and \<open>e\<close> are present, \<open>jwkToPem\<close> throws
  what the decoding of \<open>n\<close> throws; for an \<open>n\<close> that decodes it throws the weak-key error
  exactly when eight times the number of decoded bytes is below 2048, before it looks
  at \<open>e\<close>; otherwise it throws what the decoding of \<open>e\<close> throws, or returns the PEM text.
  The count is of bytes, leading zero bytes included: the bits the modulus represents
  are at most that many, so no modulus of 2048 bits or more is rejected as weak. A
  modulus of 128 bytes is rejected, one of 256 bytes is accepted. A JWK without \<open>n\<close> or
  \<open>e\<close> (or with an empty one) is rejected as incomplete.
\<close>

theorem jwkToPem_rejects_weak_keys:
  "(jwk_n jwk = Some n \<and> n \<noteq> [] \<and> jwk_e jwk = Some e \<and> e \<noteq> [] \<longrightarrow>
       (\<forall>x. base64urlToArrayBuffer p n = Inl x \<longrightarrow> jwkToPem p jwk = Inl x)
     \<and> (\<forall>nBuffer. base64urlToArrayBuffer p n = Inr nBuffer \<longrightarrow>
          (length nBuffer * 8 < 2048 \<longrightarrow>
             jwkToPem p jwk = Inl (weakKeyError (length nBuffer * 8)))
        \<and> (2048 \<le> length nBuffer * 8 \<longrightarrow>
             (\<forall>x. base64urlToArrayBuffer p e = Inl x \<longrightarrow> jwkToPem p jwk = Inl x)
           \<and> (\<forall>eBuffer. base64urlToArrayBuffer p e = Inr eBuffer \<longrightarrow>
                jwkToPem p jwk
                  = Inr (pemHeader @ [CHR 0x0A]
                         @ joinWith [CHR 0x0A]
                             (matchChunks
                                (arrayBufferToBase64 (createRSAPublicKeyDER nBuffer eBuffer)))
                         @ [CHR 0x0A] @ pemFooter)))
        \<and> (\<forall>eBuffer. base64urlToArrayBuffer p e = Inr eBuffer \<longrightarrow>
             ((\<exists>bits. jwkToPem p jwk = Inl (weakKeyError bits)) \<longleftrightarrow> length nBuffer * 8 < 2048))
        \<and> bitLength (beValue nBuffer) \<le> length nBuffer * 8
        \<and> (length nBuffer = 128 \<longrightarrow> jwkToPem p jwk = Inl (weakKeyError 1024))
        \<and> (length nBuffer = 256 \<longrightarrow>
             (\<forall>eBuffer. base64urlToArrayBuffer p e = Inr eBuffer \<longrightarrow>
                (\<exists>pem. jwkToPem p jwk = Inr pem)))))
   \<and> (jwk_n jwk = None \<or> jwk_n jwk = Some [] \<or> jwk_e jwk = None \<or> jwk_e jwk = Some [] \<longrightarrow>
        jwkToPem p jwk = Inl (Error ''Invalid JWK: missing n or e parameters''))"
proof (intro conjI impI allI)
  assume "jwk_n jwk = None \<or> jwk_n jwk = Some [] \<or> jwk_e jwk = None \<or> jwk_e jwk = Some []"
  then show "jwkToPem p jwk = Inl (Error ''Invalid JWK: missing n or e parameters'')"
    by (rule jwkToPem_missing)
next
  fix x
  assume "jwk_n jwk = Some n \<and> n \<noteq> [] \<and> jwk_e jwk = Some e \<and> e \<noteq> []"
    and "base64urlToArrayBuffer p n = Inl x"
  then show "jwkToPem p jwk = Inl x" using jwkToPem_undecoded_n [of jwk n e p x] by simp
next
  fix nBuffer
  assume "jwk_n jwk = Some n \<and> n \<noteq> [] \<and> jwk_e jwk = Some e \<and> e \<noteq> []"
    and "base64urlToArrayBuffer p n = Inr nBuffer" and "length nBuffer * 8 < 2048"
  then show "jwkToPem p jwk = Inl (weakKeyError (length nBuffer * 8))"
    using jwkToPem_weak [of jwk n e p nBuffer] by simp
next
  fix nBuffer x
  assume "jwk_n jwk = Some n \<and> n \<noteq> [] \<and> jwk_e jwk = Some e \<and> e \<noteq> []"
    and "base64urlToArrayBuffer p n = Inr nBuffer" and "2048 \<le> length nBuffer * 8"
    and "base64urlToArrayBuffer p e = Inl x"
  then show "jwkToPem p jwk = Inl x" using jwkToPem_undecoded_e [of jwk n e p nBuffer x] by simp
next
  fix nBuffer eBuffer
  assume "jwk_n jwk = Some n \<and> n \<noteq> [] \<and> jwk_e jwk = Some e \<and> e \<noteq> []"
    and "base64urlToArrayBuffer p n = Inr nBuffer" and "2048 \<le> length nBuffer * 8"
    and "base64urlToArrayBuffer p e = Inr eBuffer"
  then show "jwkToPem p jwk
      = Inr (pemHeader @ [CHR 0x0A]
             @ joinWith [CHR 0x0A]
                 (matchChunks (arrayBufferToBase64 (createRSAPublicKeyDER nBuffer eBuffer)))
             @ [CHR 0x0A] @ pemFooter)"
    using jwkToPem_strong [of jwk n e p nBuffer eBuffer] by simp
next
  fix nBuffer eBuffer
  assume h: "jwk_n jwk = Some n \<and> n \<noteq> [] \<and> jwk_e jwk = Some e \<and> e \<noteq> []"
    and dn: "base64urlToArrayBuffer p n = Inr nBuffer"
    and de: "base64urlToArrayBuffer p e = Inr eBuffer"
  show "(\<exists>bits. jwkToPem p jwk = Inl (weakKeyError bits)) \<longleftrightarrow> length nBuffer * 8 < 2048"
  proof (cases "length nBuffer * 8 < 2048")
    case True
    with jwkToPem_weak [of jwk n e p nBuffer] h dn show ?thesis by auto
  next
    case False
    with jwkToPem_strong [of jwk n e p nBuffer eBuffer] h dn de show ?thesis by auto
  qed
next
  fix nBuffer
  show "bitLength (beValue nBuffer) \<le> length nBuffer * 8" by (rule bitLength_beValue)
next
  fix nBuffer
  assume "jwk_n jwk = Some n \<and> n \<noteq> [] \<and> jwk_e jwk = Some e \<and> e \<noteq> []"
    and "base64urlToArrayBuffer p n = Inr nBuffer" and "length nBuffer = 128"
  then show "jwkToPem p jwk = Inl (weakKeyError 1024)"
    using jwkToPem_weak [of jwk n e p nBuffer] by simp
next
  fix nBuffer eBuffer
  assume "jwk_n jwk = Some n \<and> n \<noteq> [] \<and> jwk_e jwk = Some e \<and> e \<noteq> []"
    and "base64urlToArrayBuffer p n = Inr nBuffer" and "length nBuffer = 256"
    and "base64urlToArrayBuffer p e = Inr eBuffer"
  then show "\<exists>pem. jwkToPem p jwk = Inr pem"
    using jwkToPem_strong [of jwk n e p nBuffer eBuffer] by simp
qed

text \<open>
  Claim C7 as stated (fewer than 2048 bits) fails at the modulus \<open>2^2040\<close>, written on
  256 bytes: it represents 2041 bits and is accepted.
\<close>

theorem weak_modulus_accepted_counterexample:
  "base64urlToArrayBuffer leadingOnePlatform (''AQ'' @ replicate 340 (CHR ''A''))
     = Inr (0x01 # replicate 255 0x00)
   \<and> bitLength (beValue (0x01 # replicate 255 0x00)) = 2041
   \<and> jwkToPem leadingOnePlatform
        \<lparr> jwk_kty = ''RSA'', jwk_kid = ''padded-key-id'',
          jwk_n = Some (''AQ'' @ replicate 340 (CHR ''A'')), jwk_e = Some ''AQAB'' \<rparr>
      = Inr (pemHeader @ [CHR 0x0A]
             @ joinWith [CHR 0x0A]
                 (matchChunks (arrayBufferToBase64
                    (createRSAPublicKeyDER (0x01 # replicate 255 0x00) [0x01, 0x00, 0x01])))
             @ [CHR 0x0A] @ pemFooter)"
proof -
  have ne: "''AQAB'' \<noteq> ''AQ'' @ replicate 340 (CHR ''A'') @ replicate 2 (CHR ''='')"
  proof
    assume "''AQAB'' = ''AQ'' @ replicate 340 (CHR ''A'') @ replicate 2 (CHR ''='')"
    then have "length ''AQAB'' = length (''AQ'' @ replicate 340 (CHR ''A'') @ replicate 2 (CHR ''=''))"
      by (rule arg_cong)
    then show False by simp
  qed
  have e: "base64urlToArrayBuffer leadingOnePlatform ''AQAB'' = Inr [0x01, 0x00, 0x01]"
    using ne by (simp add: base64urlToArrayBuffer_def leadingOnePlatform_def stubPlatform_def
        toBase64_def)
  have n: "base64urlToArrayBuffer leadingOnePlatform (''AQ'' @ replicate 340 (CHR ''A''))
      = Inr (0x01 # replicate 255 0x00)"
    by (simp add: base64urlToArrayBuffer_def leadingOnePlatform_def toBase64_def)
  have "bitLength (beValue (0x01 # replicate 255 0x00)) = Suc (8 * 255)"
    unfolding beValue_one_zeros by (rule bitLength_power2)
  then have b: "bitLength (beValue (0x01 # replicate 255 0x00)) = 2041" by simp
  have l: "2048 \<le> length (0x01 # replicate 255 (0x00::8 word)) * 8" by simp
  have j: "jwkToPem leadingOnePlatform
        \<lparr> jwk_kty = ''RSA'', jwk_kid = ''padded-key-id'',
          jwk_n = Some (''AQ'' @ replicate 340 (CHR ''A'')), jwk_e = Some ''AQAB'' \<rparr>
      = Inr (pemHeader @ [CHR 0x0A]
             @ joinWith [CHR 0x0A]
                 (matchChunks (arrayBufferToBase64
                    (createRSAPublicKeyDER (0x01 # replicate 255 0x00) [0x01, 0x00, 0x01])))
             @ [CHR 0x0A] @ pemFooter)"
    by (rule jwkToPem_strong [OF _ _ _ _ n l e]) simp_all
  show ?thesis using n b j by simp
qed

text \<open>The theorem at the 1024-bit and the 2048-bit modulus of the repository's tests
  (128 and 256 bytes in base64url), and at a JWK without \<open>n\<close>.\<close>

theorem jwkToPem_rejects_weak_keys_witness:
  "jwkToPem stubPlatform
      \<lparr> jwk_kty = ''RSA'', jwk_kid = ''weak-key-id'', jwk_n = Some (replicate 171 (CHR ''A'')),
        jwk_e = Some ''AQAB'' \<rparr> = Inl (weakKeyError 1024)
   \<and> (\<exists>pem. jwkToPem stubPlatform
      \<lparr> jwk_kty = ''RSA'', jwk_kid = ''test-key-id'', jwk_n = Some (replicate 342 (CHR ''A'')),
        jwk_e = Some ''AQAB'' \<rparr> = Inr pem)
   \<and> jwkToPem stubPlatform
      \<lparr> jwk_kty = ''RSA'', jwk_kid = ''no-modulus'', jwk_n = None, jwk_e = Some ''AQAB'' \<rparr>
      = Inl (Error ''Invalid JWK: missing n or e parameters'')"
proof -
  have e: "base64urlToArrayBuffer stubPlatform ''AQAB'' = Inr [0x01, 0x00, 0x01]"
    by (simp add: base64urlToArrayBuffer_def stubPlatform_def toBase64_def)
  have n1: "base64urlToArrayBuffer stubPlatform (replicate 171 (CHR ''A'')) = Inr (replicate 128 0)"
    by (simp add: base64urlToArrayBuffer_def stubPlatform_def toBase64_def)
  have ne: "replicate 342 (CHR ''A'') @ replicate 2 (CHR ''='') \<noteq> ''AQAB''"
  proof
    assume "replicate 342 (CHR ''A'') @ replicate 2 (CHR ''='') = ''AQAB''"
    then have "length (replicate 342 (CHR ''A'') @ replicate 2 (CHR ''='')) = length ''AQAB''"
      by (rule arg_cong)
    then show False by simp
  qed
  have n2: "base64urlToArrayBuffer stubPlatform (replicate 342 (CHR ''A'')) = Inr (replicate 256 0)"
    using ne by (simp add: base64urlToArrayBuffer_def stubPlatform_def toBase64_def)
  have a: "jwkToPem stubPlatform
      \<lparr> jwk_kty = ''RSA'', jwk_kid = ''weak-key-id'', jwk_n = Some (replicate 171 (CHR ''A'')),
        jwk_e = Some ''AQAB'' \<rparr> = Inl (weakKeyError 1024)"
    using jwkToPem_rejects_weak_keys [where p = stubPlatform and n = "replicate 171 (CHR ''A'')"
        and e = "''AQAB''"
        and jwk = "\<lparr> jwk_kty = ''RSA'', jwk_kid = ''weak-key-id'',
          jwk_n = Some (replicate 171 (CHR ''A'')), jwk_e = Some ''AQAB'' \<rparr>"] n1 e
    by simp
  have b: "\<exists>pem. jwkToPem stubPlatform
      \<lparr> jwk_kty = ''RSA'', jwk_kid = ''test-key-id'', jwk_n = Some (replicate 342 (CHR ''A'')),
        jwk_e = Some ''AQAB'' \<rparr> = Inr pem"
    using jwkToPem_rejects_weak_keys [where p = stubPlatform and n = "replicate 342 (CHR ''A'')"
        and e = "''AQAB''"
        and jwk = "\<lparr> jwk_kty = ''RSA'', jwk_kid = ''test-key-id'',
          jwk_n = Some (replicate 342 (CHR ''A'')), jwk_e = Some ''AQAB'' \<rparr>"] n2 e
    by simp
  have c: "jwkToPem stubPlatform
      \<lparr> jwk_kty = ''RSA'', jwk_kid = ''no-modulus'', jwk_n = None, jwk_e = Some ''AQAB'' \<rparr>
      = Inl (Error ''Invalid JWK: missing n or e parameters'')"
    using jwkToPem_rejects_weak_keys [where p = stubPlatform
        and jwk = "\<lparr> jwk_kty = ''RSA'', jwk_kid = ''no-modulus'', jwk_n = None,
          jwk_e = Some ''AQAB'' \<rparr>"]
    by simp
  show ?thesis using a b c by simp
qed

section \<open>The client: what a call leaves in the cache\<close>

lemma fetchLoop_counts:
  "attempt \<le> maxAttempts \<Longrightarrow> fetched < fst (fetchLoop p maxAttempts attempt fetched)"
proof (induction p maxAttempts attempt fetched rule: fetchLoop.induct)
  case (1 p maxAttempts attempt fetched)
  show ?case
  proof (cases "attemptFetch (fetch p fetched)")
    case (Inr jwks)
    with "1.prems" show ?thesis by (subst fetchLoop.simps) simp
  next
    case (Inl error)
    show ?thesis
    proof (cases "attempt = maxAttempts")
      case True
      with Inl "1.prems" show ?thesis by (subst fetchLoop.simps) simp
    next
      case False
      then have "Suc attempt \<le> maxAttempts" using "1.prems" by simp
      from "1.IH" [OF "1.prems" Inl False this]
      have "Suc fetched < fst (fetchLoop p maxAttempts (Suc attempt) (Suc fetched))" .
      with Inl False "1.prems" show ?thesis by (subst fetchLoop.simps) simp
    qed
  qed
qed

lemma fetchJwksWithRetry_counts: "fetched < fst (fetchJwksWithRetry p fetched)"
  unfolding fetchJwksWithRetry_def by (rule fetchLoop_counts) (simp add: jwksMaxAttempts_def)

lemma jwkToPem_nonempty: "jwkToPem p jwk = Inr pem \<Longrightarrow> pem \<noteq> []"
  by (auto simp: jwkToPem_def Let_def pemHeader_def split: option.splits sum.splits if_splits)

lemma values_get:
  "list_all P (cache c) \<Longrightarrow>
   (\<And>k n now. P (k, n) \<Longrightarrow> P (k, n\<lparr>lastAccessed := now\<rparr>)) \<Longrightarrow>
   list_all P (cache (fst (LRUCache_get c k now)))"
proof -
  assume a: "list_all P (cache c)" and u: "\<And>k n now. P (k, n) \<Longrightarrow> P (k, n\<lparr>lastAccessed := now\<rparr>)"
  show ?thesis
  proof (cases "Map_get (cache c) k")
    case None
    with a show ?thesis by (simp add: LRUCache_get_def)
  next
    case (Some node)
    then have "(k, node) \<in> set (cache c)" by (rule Map_get_Some_mem)
    with a have "P (k, node)" by (simp add: list_all_iff)
    then have "P (k, node\<lparr>lastAccessed := now\<rparr>)" by (rule u)
    with a Some show ?thesis
      by (simp add: LRUCache_get_def Let_def removeNode_def moveToFront_def addToFront_def
          list_all_Map_set list_all_Map_delete)
  qed
qed

lemma values_set:
  assumes "list_all P (cache c)"
    and "\<And>k n now. P (k, n) \<Longrightarrow> P (k, n\<lparr>lastAccessed := now\<rparr>)"
    and "P (k, \<lparr> key = k, val = v, lastAccessed = now \<rparr>)"
  shows "list_all P (cache (LRUCache_set c k v now))"
proof (cases "Map_get (cache c) k")
  case None
  with assms(1,3) show ?thesis
    by (simp add: LRUCache_set_def Let_def addToFront_def evictLeastRecentlyUsed_def
        removeNode_def list_all_Map_set list_all_Map_delete)
next
  case (Some node)
  then have "(k, node) \<in> set (cache c)" by (rule Map_get_Some_mem)
  with assms(1) have "P (k, node)" by (simp add: list_all_iff)
  then have "P (k, node\<lparr>lastAccessed := now\<rparr>)" by (rule assms(2))
  with assms(1) Some show ?thesis
    by (simp add: LRUCache_set_def moveToFront_def addToFront_def removeNode_def list_all_Map_set)
qed

lemma get_miss_state:
  assumes "wellFormed c" and "snd (LRUCache_get c k now) = None"
  shows "Map_get (cache (fst (LRUCache_get c k now))) k = None"
    and "\<And>k'. k' \<noteq> k \<Longrightarrow> Map_get (cache (fst (LRUCache_get c k now))) k' = Map_get (cache c) k'"
    and "order (fst (LRUCache_get c k now)) = remove1 k (order c)"
proof -
  have "Map_get (cache (fst (LRUCache_get c k now))) k = None
      \<and> (\<forall>k'. k' \<noteq> k \<longrightarrow> Map_get (cache (fst (LRUCache_get c k now))) k' = Map_get (cache c) k')
      \<and> order (fst (LRUCache_get c k now)) = remove1 k (order c)"
  proof (cases "Map_get (cache c) k")
    case None
    have "remove1 k (order c) = order c"
      using get_absent(3) [OF assms(1) None] by (simp add: remove1_idem)
    with get_absent(1) [OF assms(1) None, of now] None show ?thesis by simp
  next
    case (Some node)
    with assms(2) have x: "ttlExpired (ttl c) now (lastAccessed node)"
      by (simp add: get_result split: if_splits)
    have e: "fst (LRUCache_get c k now)
        = (let r = removeNode c (key node) in r\<lparr>cache := Map_delete (cache r) k\<rparr>)"
      using Some x by (simp add: LRUCache_get_def)
    from removed_state(1) [OF assms(1) Some e] removed_state(3) [OF assms(1) Some e]
      removed_state(4) [OF assms(1) Some e]
    show ?thesis by simp
  qed
  then show "Map_get (cache (fst (LRUCache_get c k now))) k = None"
    and "\<And>k'. k' \<noteq> k \<Longrightarrow> Map_get (cache (fst (LRUCache_get c k now))) k' = Map_get (cache c) k'"
    and "order (fst (LRUCache_get c k now)) = remove1 k (order c)" by simp_all
qed

lemma cached_nonempty:
  assumes "clientOK client" and "snd (LRUCache_get (clientCache client) kid now) = Some k"
  shows "k \<noteq> []"
proof -
  from assms(2) obtain node where n: "Map_get (cache (clientCache client)) kid = Some node"
    and v: "val node = k"
    by (auto simp: get_result split: option.splits if_splits)
  from n have "(kid, node) \<in> set (cache (clientCache client))" by (rule Map_get_Some_mem)
  with assms(1) v show ?thesis by (auto simp: clientOK_def list_all_iff)
qed

text \<open>The two ways through \<open>getSigningKey\<close>.\<close>

lemma getSigningKey_hit:
  assumes "snd (LRUCache_get (clientCache client) kid nowGet) = Some k" and "k \<noteq> []"
  shows "getSigningKey p client kid nowGet nowSet fetched
     = (fetched, client\<lparr>clientCache := fst (LRUCache_get (clientCache client) kid nowGet)\<rparr>, Inr k)"
  using assms by (simp add: getSigningKey_def split_beta)

lemma getSigningKey_miss:
  assumes "snd (LRUCache_get (clientCache client) kid nowGet) = None"
  shows "getSigningKey p client kid nowGet nowSet fetched
     = (let c1 = fst (LRUCache_get (clientCache client) kid nowGet);
            client1 = client\<lparr>clientCache := c1\<rparr>;
            fetched' = fst (fetchJwksWithRetry p fetched)
        in case snd (fetchJwksWithRetry p fetched) of
             Inl error \<Rightarrow> (fetched', client1, Inl error)
           | Inr jwks \<Rightarrow>
               (case find (\<lambda>k. jwk_kid k = kid) (jwks_keys jwks) of
                  None \<Rightarrow> (fetched', client1,
                           Inl (Error (''Unable to find a signing key that matches ''
                                  @ [CHR 0x27] @ kid @ [CHR 0x27])))
                | Some jwk \<Rightarrow>
                    if jwk_kty jwk \<noteq> ''RSA''
                    then (fetched', client1, Inl (Error ''Only RSA keys are supported''))
                    else (case jwkToPem p jwk of
                            Inl error \<Rightarrow> (fetched', client1, Inl error)
                          | Inr publicKey \<Rightarrow>
                              (fetched',
                               client1\<lparr>clientCache := LRUCache_set c1 kid publicKey nowSet\<rparr>,
                               Inr publicKey))))"
  using assms
  by (cases "fetchJwksWithRetry p fetched")
     (simp add: getSigningKey_def split_beta Let_def split: sum.splits option.splits)

lemma clientOK_new: "JWKSClient_new config = Inr client \<Longrightarrow> clientOK client"
proof -
  assume a: "JWKSClient_new config = Inr client"
  then obtain options c where n: "LRUCache_new options = Inr c" and c: "clientCache client = c"
    by (auto simp: JWKSClient_new_def split: option.splits if_splits sum.splits)
  from wellFormed_new [OF n] new_fields [OF n] c show ?thesis by (simp add: clientOK_def)
qed

lemma clientOK_clear: "clientOK client \<Longrightarrow> clientOK (JWKSClient_clear client)"
  using wellFormed_clear [of "clientCache client"]
  by (simp add: clientOK_def JWKSClient_clear_def) (simp add: LRUCache_clear_def)

lemma clientOK_getSigningKey:
  assumes "clientOK client"
    and "getSigningKey p client kid nowGet nowSet fetched = (fetched', client', r)"
  shows "clientOK client'"
proof -
  let ?c = "clientCache client"
  let ?c1 = "fst (LRUCache_get ?c kid nowGet)"
  let ?P = "\<lambda>p :: string \<times> LRUNode. val (snd p) \<noteq> []"
  have wf: "wellFormed ?c" and vs: "list_all ?P (cache ?c)" using assms(1) by (simp_all add: clientOK_def)
  have wf1: "wellFormed ?c1" using wf by (rule wellFormed_get)
  have vs1: "list_all ?P (cache ?c1)" using vs by (rule values_get) simp
  have ok1: "clientOK (client\<lparr>clientCache := ?c1\<rparr>)" using wf1 vs1 by (simp add: clientOK_def)
  show ?thesis
  proof (cases "snd (LRUCache_get ?c kid nowGet)")
    case (Some k)
    have "k \<noteq> []" using assms(1) Some by (rule cached_nonempty)
    from getSigningKey_hit [OF Some this, of p nowSet fetched] assms(2) ok1 show ?thesis by simp
  next
    case None
    have setok: "\<And>pem. pem \<noteq> [] \<Longrightarrow>
        clientOK (client\<lparr>clientCache := LRUCache_set ?c1 kid pem nowSet\<rparr>)"
    proof -
      fix pem :: string
      assume "pem \<noteq> []"
      then have "list_all ?P (cache (LRUCache_set ?c1 kid pem nowSet))"
        using vs1 by (intro values_set) simp_all
      with wellFormed_set [OF wf1, of kid pem nowSet] show
        "clientOK (client\<lparr>clientCache := LRUCache_set ?c1 kid pem nowSet\<rparr>)"
        by (simp add: clientOK_def)
    qed
    from assms(2) ok1 setok jwkToPem_nonempty [of p] show ?thesis
      unfolding getSigningKey_miss [OF None]
      by (auto simp: Let_def split: sum.splits option.splits if_splits)
  qed
qed

lemma clientOK_calls:
  "clientOK client \<Longrightarrow> clientCalls p (fetched, client) history = (fetched', client')
     \<Longrightarrow> clientOK client'"
proof (induction history arbitrary: fetched client)
  case Nil
  then show ?case by simp
next
  case (Cons x history)
  show ?case
  proof (cases x)
    case (GetKey kid nowGet nowSet)
    obtain f1 c1 r where g: "getSigningKey p client kid nowGet nowSet fetched = (f1, c1, r)"
      by (cases "getSigningKey p client kid nowGet nowSet fetched") auto
    have "clientOK c1" using Cons.prems(1) g by (rule clientOK_getSigningKey)
    moreover have "clientCalls p (f1, c1) history = (fetched', client')"
      using Cons.prems(2) GetKey g by simp
    ultimately show ?thesis by (rule Cons.IH)
  next
    case ClearKeys
    have "clientOK (JWKSClient_clear client)" using Cons.prems(1) by (rule clientOK_clear)
    moreover have "clientCalls p (fetched, JWKSClient_clear client) history = (fetched', client')"
      using Cons.prems(2) ClearKeys by simp
    ultimately show ?thesis by (rule Cons.IH)
  qed
qed

lemma miss_fetches:
  assumes "snd (LRUCache_get (clientCache client) kid nowGet) = None"
  shows "fetched < fst (getSigningKey p client kid nowGet nowSet fetched)"
  using fetchJwksWithRetry_counts [of fetched p]
  unfolding getSigningKey_miss [OF assms]
  by (simp add: Let_def split: sum.splits option.splits)

lemma failure_state:
  assumes "clientOK client"
    and "getSigningKey p client kid nowGet nowSet fetched = (fetched', client', Inl error)"
  shows "snd (LRUCache_get (clientCache client) kid nowGet) = None"
    and "clientCache client' = fst (LRUCache_get (clientCache client) kid nowGet)"
    and "fetched < fetched'"
proof -
  show m: "snd (LRUCache_get (clientCache client) kid nowGet) = None"
  proof (cases "snd (LRUCache_get (clientCache client) kid nowGet)")
    case None
    then show ?thesis .
  next
    case (Some k)
    have "k \<noteq> []" using assms(1) Some by (rule cached_nonempty)
    from getSigningKey_hit [OF Some this, of p nowSet fetched] assms(2) show ?thesis by simp
  qed
  show "clientCache client' = fst (LRUCache_get (clientCache client) kid nowGet)"
    using assms(2) unfolding getSigningKey_miss [OF m]
    by (auto simp: Let_def split: sum.splits option.splits if_splits)
  show "fetched < fetched'" using miss_fetches [OF m, of fetched p nowSet] assms(2) by simp
qed

lemma find_SomeD: "find P xs = Some x \<Longrightarrow> P x"
  by (auto simp: find_Some_iff)

lemma success_state:
  assumes "clientOK client"
    and "getSigningKey p client kid nowGet nowSet fetched = (fetched', client', Inr publicKey)"
  shows "(fetched' = fetched
          \<and> snd (LRUCache_get (clientCache client) kid nowGet) = Some publicKey
          \<and> clientCache client' = fst (LRUCache_get (clientCache client) kid nowGet))
       \<or> (\<exists>jwk. jwk_kid jwk = kid \<and> jwk_kty jwk = ''RSA'' \<and> jwkToPem p jwk = Inr publicKey
            \<and> clientCache client'
                = LRUCache_set (fst (LRUCache_get (clientCache client) kid nowGet)) kid publicKey nowSet
            \<and> Map_get (cache (clientCache client')) kid
                = Some \<lparr> key = kid, val = publicKey, lastAccessed = nowSet \<rparr>)"
proof (cases "snd (LRUCache_get (clientCache client) kid nowGet)")
  case (Some k)
  have "k \<noteq> []" using assms(1) Some by (rule cached_nonempty)
  from getSigningKey_hit [OF Some this, of p nowSet fetched] assms(2) Some show ?thesis by simp
next
  case None
  let ?c1 = "fst (LRUCache_get (clientCache client) kid nowGet)"
  have wf: "wellFormed (clientCache client)" using assms(1) by (simp add: clientOK_def)
  have wf1: "wellFormed ?c1" using wf by (rule wellFormed_get)
  have ab: "Map_get (cache ?c1) kid = None" using wf None by (rule get_miss_state(1))
  from assms(2) have "\<exists>jwk.
      jwk_kid jwk = kid
      \<and> jwk_kty jwk = ''RSA'' \<and> jwkToPem p jwk = Inr publicKey
      \<and> clientCache client' = LRUCache_set ?c1 kid publicKey nowSet"
    unfolding getSigningKey_miss [OF None]
    by (auto simp: Let_def split: sum.splits option.splits if_splits dest: find_SomeD)
  then obtain jwk where
    f: "jwk_kid jwk = kid"
    and k: "jwk_kty jwk = ''RSA''" and j: "jwkToPem p jwk = Inr publicKey"
    and c: "clientCache client' = LRUCache_set ?c1 kid publicKey nowSet"
    by blast
  note f
  moreover have "Map_get (cache (clientCache client')) kid
      = Some \<lparr> key = kid, val = publicKey, lastAccessed = nowSet \<rparr>"
    unfolding c using node_after_set [OF wf1, of kid publicKey nowSet] ab by simp
  ultimately show ?thesis using k j c by blast
qed

text \<open>
  Claim C6, as amended. Take a client after any history of \<open>getSigningKey\<close> and
  \<open>clear\<close> calls. If \<open>getSigningKey(kid)\<close> throws, at whatever step, the cache is the one
  its initial lookup left: it holds no entry for \<open>kid\<close> (an expired one has been
  removed by the lookup), every other entry and the order of the others are
  unchanged, and a following call for \<open>kid\<close> fetches again. If it returns a key, the
  key was either read from the cache, or it is the result of \<open>jwkToPem\<close> on an RSA key
  of that id, and that result is what the cache now holds for \<open>kid\<close>.
\<close>

theorem failed_getSigningKey_caches_nothing:
  assumes "JWKSClient_new config = Inr client0"
    and "clientCalls p (fetched0, client0) history = (fetched, client)"
  shows "(\<forall>fetched' client' error.
            getSigningKey p client kid nowGet nowSet fetched = (fetched', client', Inl error) \<longrightarrow>
              clientCache client' = fst (LRUCache_get (clientCache client) kid nowGet)
            \<and> Map_get (cache (clientCache client')) kid = None
            \<and> (\<forall>k. k \<noteq> kid \<longrightarrow>
                 Map_get (cache (clientCache client')) k = Map_get (cache (clientCache client)) k)
            \<and> order (clientCache client') = remove1 kid (order (clientCache client))
            \<and> fetched < fetched'
            \<and> (\<forall>t1 t2. fetched' < fst (getSigningKey p client' kid t1 t2 fetched')))
       \<and> (\<forall>fetched' client' publicKey.
            getSigningKey p client kid nowGet nowSet fetched = (fetched', client', Inr publicKey) \<longrightarrow>
              (fetched' = fetched
               \<and> snd (LRUCache_get (clientCache client) kid nowGet) = Some publicKey
               \<and> clientCache client' = fst (LRUCache_get (clientCache client) kid nowGet))
            \<or> (\<exists>jwk. jwk_kid jwk = kid \<and> jwk_kty jwk = ''RSA'' \<and> jwkToPem p jwk = Inr publicKey
                 \<and> clientCache client'
                     = LRUCache_set (fst (LRUCache_get (clientCache client) kid nowGet))
                         kid publicKey nowSet
                 \<and> Map_get (cache (clientCache client')) kid
                     = Some \<lparr> key = kid, val = publicKey, lastAccessed = nowSet \<rparr>))"
proof -
  have ok0: "clientOK client0" using assms(1) by (rule clientOK_new)
  have ok: "clientOK client" using ok0 assms(2) by (rule clientOK_calls)
  have wf: "wellFormed (clientCache client)" using ok by (simp add: clientOK_def)
  have a: "\<forall>fetched' client' error.
            getSigningKey p client kid nowGet nowSet fetched = (fetched', client', Inl error) \<longrightarrow>
              clientCache client' = fst (LRUCache_get (clientCache client) kid nowGet)
            \<and> Map_get (cache (clientCache client')) kid = None
            \<and> (\<forall>k. k \<noteq> kid \<longrightarrow>
                 Map_get (cache (clientCache client')) k = Map_get (cache (clientCache client)) k)
            \<and> order (clientCache client') = remove1 kid (order (clientCache client))
            \<and> fetched < fetched'
            \<and> (\<forall>t1 t2. fetched' < fst (getSigningKey p client' kid t1 t2 fetched'))"
  proof (intro allI impI)
    fix fetched' client' error
    assume g: "getSigningKey p client kid nowGet nowSet fetched = (fetched', client', Inl error)"
    have m: "snd (LRUCache_get (clientCache client) kid nowGet) = None"
      using ok g by (rule failure_state(1))
    have c: "clientCache client' = fst (LRUCache_get (clientCache client) kid nowGet)"
      using ok g by (rule failure_state(2))
    have f: "fetched < fetched'" using ok g by (rule failure_state(3))
    have ab: "Map_get (cache (clientCache client')) kid = None"
      unfolding c using wf m by (rule get_miss_state(1))
    have fr: "\<forall>k. k \<noteq> kid \<longrightarrow>
        Map_get (cache (clientCache client')) k = Map_get (cache (clientCache client)) k"
      unfolding c using get_miss_state(2) [OF wf m] by blast
    have od: "order (clientCache client') = remove1 kid (order (clientCache client))"
      unfolding c using wf m by (rule get_miss_state(3))
    have again: "\<forall>t1 t2. fetched' < fst (getSigningKey p client' kid t1 t2 fetched')"
    proof (intro allI)
      fix t1 t2
      have "snd (LRUCache_get (clientCache client') kid t1) = None"
        using ab by (simp add: get_result)
      then show "fetched' < fst (getSigningKey p client' kid t1 t2 fetched')"
        by (rule miss_fetches)
    qed
    from c ab fr od f again
    show "clientCache client' = fst (LRUCache_get (clientCache client) kid nowGet)
            \<and> Map_get (cache (clientCache client')) kid = None
            \<and> (\<forall>k. k \<noteq> kid \<longrightarrow>
                 Map_get (cache (clientCache client')) k = Map_get (cache (clientCache client)) k)
            \<and> order (clientCache client') = remove1 kid (order (clientCache client))
            \<and> fetched < fetched'
            \<and> (\<forall>t1 t2. fetched' < fst (getSigningKey p client' kid t1 t2 fetched'))"
      by blast
  qed
  from a success_state [OF ok, of p kid nowGet nowSet fetched] show ?thesis by blast
qed

lemma decimal_3: "decimal 3 = ''3''"
  by code_simp

lemma fetchLoop_all_fail:
  assumes "\<And>i. attemptFetch (fetch p i) = Inl e"
  shows "attempt \<le> m \<Longrightarrow>
     fetchLoop p m attempt f
       = (f + Suc (m - attempt),
          Inl (Error (''Failed to fetch JWKS after '' @ decimal m @ '' attempts: ''
                 @ messageOr e ''Unknown error'')))"
proof (induction "m - attempt" arbitrary: attempt f)
  case 0
  then have "attempt = m" by simp
  then show ?case by (subst fetchLoop.simps) (simp add: assms)
next
  case (Suc d)
  then have lt: "attempt < m" and d: "d = m - Suc attempt" by simp_all
  have le: "Suc attempt \<le> m" using lt by simp
  from Suc.hyps(1) [OF d le, of "Suc f"] lt Suc.prems
  show ?case by (subst fetchLoop.simps) (simp add: assms)
qed

lemma stub_fetch_fails:
  "fetchJwksWithRetry stubPlatform fetched
     = (fetched + 3, Inl (Error ''Failed to fetch JWKS after 3 attempts: Network error''))"
proof -
  have a: "attemptFetch (fetch stubPlatform i) = Inl (Error ''Network error'')" for i
    by (simp add: attemptFetch_def stubPlatform_def)
  from fetchLoop_all_fail [of stubPlatform "Error ''Network error''" 1 3 fetched, OF a]
  show ?thesis by (simp add: fetchJwksWithRetry_def jwksMaxAttempts_def messageOr_def decimal_3)
qed

text \<open>
  Claim C6 as stated (the cache is left unchanged) fails when the cache holds an
  expired entry for the identifier: the lookup that opens \<open>getSigningKey\<close> removes it
  before the fetch fails. The state below is the one of a client with a \<open>cacheTtl\<close> of
  100 after a successful call for \<open>kid1\<close> at time 0 (the key text shortened); every
  fetch is rejected.
\<close>

theorem failed_getSigningKey_counterexample:
  "getSigningKey stubPlatform
     \<lparr> clientCache =
         \<lparr> cache = [(''kid1'', \<lparr> key = ''kid1'', val = ''PEM'', lastAccessed = 0 \<rparr>)],
           order = [''kid1''], maxSize = 20, ttl = Some (Finite 100) \<rparr>,
       jwksUri = ''https://idp.example/jwks'' \<rparr>
     ''kid1'' 1000 1001 0
   = (3,
      \<lparr> clientCache = \<lparr> cache = [], order = [], maxSize = 20, ttl = Some (Finite 100) \<rparr>,
        jwksUri = ''https://idp.example/jwks'' \<rparr>,
      Inl (Error ''Failed to fetch JWKS after 3 attempts: Network error''))
   \<and> cache \<lparr> cache = [], order = [], maxSize = 20, ttl = Some (Finite 100) \<rparr>
       \<noteq> cache \<lparr> cache = [(''kid1'', \<lparr> key = ''kid1'', val = ''PEM'', lastAccessed = 0 \<rparr>)],
                 order = [''kid1''], maxSize = 20, ttl = Some (Finite 100) \<rparr>"
proof -
  have g: "LRUCache_get
       \<lparr> cache = [(''kid1'', \<lparr> key = ''kid1'', val = ''PEM'', lastAccessed = 0 \<rparr>)],
         order = [''kid1''], maxSize = 20, ttl = Some (Finite 100) \<rparr> ''kid1'' 1000
     = (\<lparr> cache = [], order = [], maxSize = 20, ttl = Some (Finite 100) \<rparr>, None)"
    by (simp add: cache_eval)
  show ?thesis
    by (simp add: getSigningKey_def g stub_fetch_fails [of 0, simplified])
qed

text \<open>The amended theorem on a fresh client whose fetches are all rejected.\<close>

theorem failed_getSigningKey_caches_nothing_witness:
  "JWKSClient_new \<lparr> cfgJwksUri = Some ''https://idp.example/jwks'', cfgCacheMaxSize = None,
                    cfgCacheTtl = None \<rparr>
     = Inr \<lparr> clientCache = \<lparr> cache = [], order = [], maxSize = 20, ttl = None \<rparr>,
             jwksUri = ''https://idp.example/jwks'' \<rparr>
   \<and> getSigningKey stubPlatform
        \<lparr> clientCache = \<lparr> cache = [], order = [], maxSize = 20, ttl = None \<rparr>,
          jwksUri = ''https://idp.example/jwks'' \<rparr> ''kid1'' 5 6 0
     = (3, \<lparr> clientCache = \<lparr> cache = [], order = [], maxSize = 20, ttl = None \<rparr>,
             jwksUri = ''https://idp.example/jwks'' \<rparr>,
        Inl (Error ''Failed to fetch JWKS after 3 attempts: Network error''))
   \<and> 3 < fst (getSigningKey stubPlatform
        \<lparr> clientCache = \<lparr> cache = [], order = [], maxSize = 20, ttl = None \<rparr>,
          jwksUri = ''https://idp.example/jwks'' \<rparr> ''kid1'' 7 8 3)"
proof -
  let ?c0 = "\<lparr> clientCache = \<lparr> cache = [], order = [], maxSize = 20, ttl = None \<rparr>,
             jwksUri = ''https://idp.example/jwks'' \<rparr>"
  have n: "JWKSClient_new \<lparr> cfgJwksUri = Some ''https://idp.example/jwks'', cfgCacheMaxSize = None,
                    cfgCacheTtl = None \<rparr> = Inr ?c0"
    by (simp add: JWKSClient_new_def LRUCache_new_def trim_def isWhiteSpace_def)
  have h: "clientCalls stubPlatform (0, ?c0) [] = (0, ?c0)" by simp
  have g: "getSigningKey stubPlatform ?c0 ''kid1'' 5 6 0
     = (3, ?c0, Inl (Error ''Failed to fetch JWKS after 3 attempts: Network error''))"
    by (simp add: getSigningKey_def LRUCache_get_def Map_get_def stub_fetch_fails [of 0, simplified])
  have "3 < fst (getSigningKey stubPlatform ?c0 ''kid1'' 7 8 3)"
    using failed_getSigningKey_caches_nothing [OF n h, of "''kid1''" 5 6] g by blast
  with n g show ?thesis by simp
qed

section \<open>validate: every path ends in a result\<close>

text \<open>The product is rounded: the double nearest to \<open>1700000000.002\<close>, times 1000, is
  the double \<open>1700000000002\<close>, which the exact product is not.\<close>

lemma times1000_rounds:
  "times1000 (Finite (7130316800008389 / 4194304)) = Finite 1700000000002
   \<and> (7130316800008389 / 4194304 :: rat) * 1000 \<noteq> 1700000000002"
  by code_simp

lemma shaped_invalid: "shaped (invalid m)"
  by (simp add: shaped_def invalid_def)

lemma shaped_valid: "shaped \<lparr> isValid = True, payload = Some j, errorMessage = None \<rparr>"
  by (simp add: shaped_def)

lemma shaped_verifyWithKey:
  "shaped (verifyWithKey p v kid headerB64 payloadB64 signatureB64 payloadJson)"
  by (simp add: verifyWithKey_def shaped_invalid shaped_valid split: sum.splits)

lemma shaped_validateChecks:
  "validateChecks p v now headerB64 payloadB64 signatureB64 headerJson payloadJson = Inr r
     \<Longrightarrow> shaped r"
  unfolding validateChecks_def
  by (auto simp: shaped_invalid shaped_verifyWithKey
      split: sum.splits if_splits bool.splits option.splits)

lemma shaped_validateBody: "validateBody p v token now = Inr r \<Longrightarrow> shaped r"
  unfolding validateBody_def
  by (auto simp: shaped_invalid dest: shaped_validateChecks
      split: sum.splits if_splits list.splits)

lemma shaped_validate: "shaped (validate p v token now)"
  by (cases "validateBody p v token now")
     (simp_all add: validate_def shaped_invalid shaped_validateBody)

text \<open>
  Claim C2. For every token, validator, platform and clock reading, \<open>validate\<close> returns a
  result (the model is a total function in which every \<open>throw\<close> of the body is a
  value): its payload is present iff \<open>isValid\<close> is true, and its error message iff
  \<open>isValid\<close> is false. An exception that reaches the outer \<open>catch\<close> becomes the invalid
  result with the exception's message, or with "Token validation failed" when the
  thrown value is not an \<open>Error\<close>; the empty token gives "No token provided".
\<close>

theorem validate_always_returns_a_result:
  "(isValid (validate p v token now) \<longleftrightarrow> payload (validate p v token now) \<noteq> None)
   \<and> (\<not> isValid (validate p v token now) \<longleftrightarrow> errorMessage (validate p v token now) \<noteq> None)
   \<and> (\<forall>m. validateBody p v token now = Inl (Error m) \<longrightarrow>
         validate p v token now = \<lparr> isValid = False, payload = None, errorMessage = Some m \<rparr>)
   \<and> (validateBody p v token now = Inl NonError \<longrightarrow>
         validate p v token now
           = \<lparr> isValid = False, payload = None, errorMessage = Some ''Token validation failed'' \<rparr>)
   \<and> (\<forall>r. validateBody p v token now = Inr r \<longrightarrow> validate p v token now = r)
   \<and> validate p v [] now
        = \<lparr> isValid = False, payload = None, errorMessage = Some ''No token provided'' \<rparr>"
proof -
  have s: "shaped (validate p v token now)" by (rule shaped_validate)
  have a: "\<forall>m. validateBody p v token now = Inl (Error m) \<longrightarrow>
         validate p v token now = \<lparr> isValid = False, payload = None, errorMessage = Some m \<rparr>"
    by (simp add: validate_def invalid_def messageOr_def)
  have b: "validateBody p v token now = Inl NonError \<longrightarrow>
         validate p v token now
           = \<lparr> isValid = False, payload = None, errorMessage = Some ''Token validation failed'' \<rparr>"
    by (simp add: validate_def invalid_def messageOr_def)
  have c: "\<forall>r. validateBody p v token now = Inr r \<longrightarrow> validate p v token now = r"
    by (simp add: validate_def)
  have d: "validate p v [] now
        = \<lparr> isValid = False, payload = None, errorMessage = Some ''No token provided'' \<rparr>"
    by (simp add: validate_def validateBody_def invalid_def)
  from s a b c d show ?thesis unfolding shaped_def by blast
qed

text \<open>Two runs that reach the outer \<open>catch\<close>: a header that parses to \<open>null\<close> (reading
  \<open>header.alg\<close> throws a \<open>TypeError\<close>), and a conversion that throws a value that is not
  an \<open>Error\<close>.\<close>

lemma split_abc: "splitOn (CHR ''.'') ''a.b.c'' = [''a'', ''b'', ''c'']"
  by simp

lemma body_null_header:
  "validateBody nullPlatform exampleValidator ''a.b.c'' 0
     = Inl (Error (''Cannot read properties of null (reading '' @ [CHR 0x27] @ ''alg''
                     @ [CHR 0x27] @ '')''))"
  by (simp add: validateBody_def split_abc decodeSegment_def base64urlDecode_def
      nullPlatform_def stubPlatform_def validateChecks_def getProperty_def)

lemma body_non_error:
  "validateBody
     (nullPlatform\<lparr> JSON_parse := (\<lambda>s. Inr (JObject [(''alg'', JNumber (Finite 5))])),
                    toStringOf := (\<lambda>j. Inl NonError) \<rparr>)
     exampleValidator ''a.b.c'' 0 = Inl NonError"
  by (simp add: validateBody_def split_abc decodeSegment_def base64urlDecode_def
      nullPlatform_def stubPlatform_def validateChecks_def getProperty_def
      validateAlgorithm_def templateText_def)

text \<open>The theorem at those two runs.\<close>

theorem validate_always_returns_a_result_witness:
  "validate nullPlatform exampleValidator ''a.b.c'' 0
     = \<lparr> isValid = False, payload = None,
         errorMessage = Some (''Cannot read properties of null (reading '' @ [CHR 0x27] @ ''alg''
                                @ [CHR 0x27] @ '')'') \<rparr>
   \<and> validate
        (nullPlatform\<lparr> JSON_parse := (\<lambda>s. Inr (JObject [(''alg'', JNumber (Finite 5))])),
                       toStringOf := (\<lambda>j. Inl NonError) \<rparr>)
        exampleValidator ''a.b.c'' 0
     = \<lparr> isValid = False, payload = None, errorMessage = Some ''Token validation failed'' \<rparr>"
proof -
  have a: "validate nullPlatform exampleValidator ''a.b.c'' 0
     = \<lparr> isValid = False, payload = None,
         errorMessage = Some (''Cannot read properties of null (reading '' @ [CHR 0x27] @ ''alg''
                                @ [CHR 0x27] @ '')'') \<rparr>"
    using validate_always_returns_a_result [of nullPlatform exampleValidator "''a.b.c''" 0]
      body_null_header by blast
  have b: "validate
        (nullPlatform\<lparr> JSON_parse := (\<lambda>s. Inr (JObject [(''alg'', JNumber (Finite 5))])),
                       toStringOf := (\<lambda>j. Inl NonError) \<rparr>)
        exampleValidator ''a.b.c'' 0
     = \<lparr> isValid = False, payload = None, errorMessage = Some ''Token validation failed'' \<rparr>"
    using validate_always_returns_a_result [of
        "nullPlatform\<lparr> JSON_parse := (\<lambda>s. Inr (JObject [(''alg'', JNumber (Finite 5))])),
                       toStringOf := (\<lambda>j. Inl NonError) \<rparr>" exampleValidator "''a.b.c''" 0]
      body_non_error by blast
  show ?thesis using a b by simp
qed

end
